theory Spec2Isabelle
  imports Complex_Main "HOL-Library.Sublist" "HOL-Library.Multiset" "HOL-Library.Log_Nat"
    "HOL-Library.AList"
begin

section \<open>Python strings and lists\<close>

text \<open>
  Object keys and permission names are Python \<open>str\<close> values. They are modelled as
  \<^typ>\<open>string\<close>; \<open>str.lower()\<close> is modelled on the ASCII letters (\<open>A\<close>..\<open>Z\<close> become
  \<open>a\<close>..\<open>z\<close>, every other character is kept).
\<close>

definition lower_char :: "char \<Rightarrow> char" where
  "lower_char c =
     (case map_of (zip ''ABCDEFGHIJKLMNOPQRSTUVWXYZ'' ''abcdefghijklmnopqrstuvwxyz'') c of
        Some d \<Rightarrow> d
      | None \<Rightarrow> c)"

definition lower :: "string \<Rightarrow> string" where
  "lower s = map lower_char s"

text \<open>\<open>startswith p s\<close>: the string \<open>s\<close> begins with \<open>p\<close>.\<close>

fun startswith :: "string \<Rightarrow> string \<Rightarrow> bool" where
  "startswith [] s = True"
| "startswith (p # ps) [] = False"
| "startswith (p # ps) (c # cs) = (p = c \<and> startswith ps cs)"

text \<open>\<open>str_in p s\<close> is Python's \<open>p in s\<close> on strings: \<open>p\<close> occurs in \<open>s\<close> as a
  contiguous substring.\<close>

fun str_in :: "string \<Rightarrow> string \<Rightarrow> bool" where
  "str_in p [] = (p = [])"
| "str_in p (c # cs) = (startswith p (c # cs) \<or> str_in p cs)"

text \<open>Python's \<open>len\<close>, an int.\<close>

definition len :: "'a list \<Rightarrow> int" where
  "len xs = int (length xs)"

text \<open>Python's \<open>any(p in s for p in patterns)\<close>.\<close>

definition any_in :: "string list \<Rightarrow> string \<Rightarrow> bool" where
  "any_in patterns s = list_ex (\<lambda>p. str_in p s) patterns"

section \<open>Permission checker (src/workers/permission\_checker.py)\<close>

datatype PermissionType = READ | WRITE | LIST | DELETE | READ_ACL | WRITE_ACL

text \<open>The recommendation texts are fixed templates; each template is a constructor, the
  one with a file count carries the count.\<close>

datatype recommendation =
    PubliclyAccessible
  | S3BlockPublicAccess | S3ReviewAcl
  | GcsCheckIam | GcsSignedUrls
  | AzurePrivateLevel | AzureUseSas
  | PublicWriteAccess | RemovePublicWrite
  | FoundFiles int
  | ProperlySecured

record PermissionCheckResult =
  pc_bucket_name :: string
  pc_provider :: string
  pc_permissions :: "PermissionType list"
  pc_is_public :: bool
  pc_is_writable :: bool
  pc_risk_level :: string
  pc_recommendations :: "recommendation list"

definition risk_sensitive_patterns :: "string list" where
  "risk_sensitive_patterns =
     [''.env'', ''secret'', ''password'', ''credential'', ''key'', ''.pem'']"

text \<open>\<open>files_found\<close> defaults to \<open>None\<close>; \<open>if files_found:\<close> is false for \<open>None\<close> and for
  the empty list.\<close>

definition truthy :: "'a list option \<Rightarrow> bool" where
  "truthy v = (case v of None \<Rightarrow> False | Some xs \<Rightarrow> xs \<noteq> [])"

text \<open>The list behind an optional list that has passed the truthiness test.\<close>

definition files_of :: "'a list option \<Rightarrow> 'a list" where
  "files_of v = (case v of None \<Rightarrow> [] | Some xs \<Rightarrow> xs)"

definition calculate_risk_level ::
  "bool \<Rightarrow> bool \<Rightarrow> PermissionType list \<Rightarrow> string list option \<Rightarrow> string" where
  "calculate_risk_level is_public is_writable permissions files_found =
     (if \<not> is_public then ''low''
      else if is_writable then ''critical''
      else if truthy files_found \<and>
              list_ex (\<lambda>f. any_in risk_sensitive_patterns (lower f)) (files_of files_found)
        then ''high''
      else if truthy files_found \<and> length (files_of files_found) > 0 then ''medium''
      else ''medium'')"

definition generate_recommendations ::
  "bool \<Rightarrow> bool \<Rightarrow> string \<Rightarrow> string list option \<Rightarrow> recommendation list" where
  "generate_recommendations is_public is_writable provider files_found =
     (let r1 = (if is_public then
                  [PubliclyAccessible] @
                  (if provider = ''aws_s3'' then [S3BlockPublicAccess, S3ReviewAcl]
                   else if provider = ''gcp_gcs'' then [GcsCheckIam, GcsSignedUrls]
                   else if provider = ''azure_blob'' then [AzurePrivateLevel, AzureUseSas]
                   else [])
                else []);
          r2 = r1 @ (if is_writable then [PublicWriteAccess, RemovePublicWrite] else []);
          r3 = r2 @ (if truthy files_found \<and> length (files_of files_found) > 0
                     then [FoundFiles (int (length (files_of files_found)))] else [])
      in if r3 = [] then [ProperlySecured] else r3)"

definition map_permissions :: "string list \<Rightarrow> PermissionType list" where
  "map_permissions permissions =
     (if ''list'' \<in> set permissions then [LIST] else []) @
     (if ''read'' \<in> set permissions \<or> ''get'' \<in> set permissions then [READ] else []) @
     (if ''write'' \<in> set permissions \<or> ''put'' \<in> set permissions then [WRITE] else []) @
     (if ''delete'' \<in> set permissions then [DELETE] else [])"

definition analyze_permissions ::
  "string \<Rightarrow> string \<Rightarrow> string list \<Rightarrow> bool \<Rightarrow> string list option \<Rightarrow> PermissionCheckResult" where
  "analyze_permissions bucket_name provider permissions is_public files_found =
     (let perm_types = map_permissions permissions;
          is_writable = list_ex (\<lambda>p. p \<in> set perm_types) [WRITE, DELETE, WRITE_ACL];
          risk_level = calculate_risk_level is_public is_writable perm_types files_found;
          recommendations = generate_recommendations is_public is_writable provider files_found
      in \<lparr> pc_bucket_name = bucket_name, pc_provider = provider,
           pc_permissions = perm_types, pc_is_public = is_public,
           pc_is_writable = is_writable, pc_risk_level = risk_level,
           pc_recommendations = recommendations \<rparr>)"

section \<open>Regular expressions of the pattern table\<close>

text \<open>
  The patterns handed to \<open>re.search\<close> use literal characters (an escaped dot is the literal
  dot), an optional character set (\<open>[-_]?\<close>), a group of literal alternatives
  (\<open>(json|xml|...)\<close>) and the anchor \<open>$\<close>. A pattern is the sequence of its items.
\<close>

datatype re_item = Lit char | OptSet string | Alts "string list" | EndAnchor

type_synonym pattern = "re_item list"

definition lit :: "string \<Rightarrow> pattern" where
  "lit s = map Lit s"

text \<open>\<open>match_here p s\<close>: the pattern matches a prefix of \<open>s\<close>. Without the MULTILINE flag
  \<open>$\<close> matches at the end of the string and just before a newline that ends the string.\<close>

fun match_here :: "pattern \<Rightarrow> string \<Rightarrow> bool" where
  "match_here [] s = True"
| "match_here (Lit c # r) s = (case s of [] \<Rightarrow> False | x # xs \<Rightarrow> x = c \<and> match_here r xs)"
| "match_here (OptSet cs # r) s =
     ((case s of [] \<Rightarrow> False | x # xs \<Rightarrow> x \<in> set cs \<and> match_here r xs) \<or> match_here r s)"
| "match_here (Alts as # r) s =
     list_ex (\<lambda>a. startswith a s \<and> match_here r (drop (length a) s)) as"
| "match_here (EndAnchor # r) s = ((s = [] \<or> s = [CHR 0x0A]) \<and> match_here r s)"

text \<open>\<open>re.search(pattern, s)\<close> as a truth value: the pattern matches at some position.\<close>

fun re_search :: "pattern \<Rightarrow> string \<Rightarrow> bool" where
  "re_search p [] = match_here p []"
| "re_search p (c # cs) = (match_here p (c # cs) \<or> re_search p cs)"

section \<open>Python floats\<close>

text \<open>
  A float is modelled by the rational number it denotes. \<open>round_double\<close> rounds a rational
  to the nearest number with a 53-bit significand, ties to the even significand, as IEEE 754
  binary64 arithmetic does in its normal range (the quotients and products of list lengths
  formed below never leave that range).
\<close>

definition round_half_even :: "rat \<Rightarrow> int" where
  "round_half_even x =
     (let f = \<lfloor>x\<rfloor>; d = x - of_int f
      in if d < 1 / 2 then f else if 1 / 2 < d then f + 1 else if even f then f else f + 1)"

text \<open>\<open>ilog2 x\<close> is the integer \<open>e\<close> with \<open>2^e \<le> x < 2^(e+1)\<close>, for positive \<open>x\<close>.\<close>

definition ilog2 :: "rat \<Rightarrow> int" where
  "ilog2 x =
     (let (a, b) = quotient_of x; d = bitlen a - bitlen b
      in if 2 powi d \<le> x then d else d - 1)"

definition round_double :: "rat \<Rightarrow> rat" where
  "round_double x =
     (if x = 0 then 0
      else let e = ilog2 \<bar>x\<bar> - 52 in of_int (round_half_even (x / 2 powi e)) * 2 powi e)"

text \<open>\<open>a / b\<close> on two ints (true division, the divisor is not zero where it is used),
  \<open>x * y\<close> on floats, and \<open>int(x)\<close>, which truncates towards zero.\<close>

definition py_truediv :: "int \<Rightarrow> int \<Rightarrow> rat" where
  "py_truediv a b = round_double (of_int a / of_int b)"

definition py_fmul :: "rat \<Rightarrow> rat \<Rightarrow> rat" where
  "py_fmul x y = round_double (x * y)"

definition py_int :: "rat \<Rightarrow> int" where
  "py_int x = (if 0 \<le> x then \<lfloor>x\<rfloor> else \<lceil>x\<rceil>)"

section \<open>Content analyzer (src/workers/content\_analyzer.py)\<close>

record finding =
  f_category :: string
  f_severity :: string
  f_count :: int
  f_files :: "string list"
  f_description :: string

record ContentAnalysisResult =
  ca_bucket_name :: string
  ca_total_files :: int
  ca_sensitive_files :: "string list"
  ca_file_types :: "(string \<times> int) list"
  ca_risk_score :: int
  ca_findings :: "finding list"

text \<open>The class attribute \<open>SENSITIVE_PATTERNS\<close>: a dict, iterated in insertion order.\<close>

definition SENSITIVE_PATTERNS :: "(string \<times> pattern list) list" where
  "SENSITIVE_PATTERNS =
    [(''credentials'',
        [lit ''.env'' @ [EndAnchor], lit ''.env.'',
         lit ''secret'', lit ''password'', lit ''passwd'',
         lit ''credential'', lit ''creds'',
         lit ''auth'', lit ''token'', lit ''api'' @ [OptSet ''-_''] @ lit ''key'']),
     (''private_keys'',
        [lit ''.pem'' @ [EndAnchor], lit ''.key'' @ [EndAnchor], lit ''.ppk'' @ [EndAnchor],
         lit ''private'' @ [OptSet ''-_''] @ lit ''key'', lit ''id_rsa'', lit ''id_dsa'',
         lit ''.p12'' @ [EndAnchor], lit ''.pfx'' @ [EndAnchor]]),
     (''config_files'',
        [lit ''config.'' @ [Alts [''json'', ''xml'', ''yml'', ''yaml'', ''ini'', ''conf''], EndAnchor],
         lit ''wp-config.php'' @ [EndAnchor],
         lit ''settings.'' @ [Alts [''py'', ''json'', ''xml''], EndAnchor],
         lit ''.htaccess'' @ [EndAnchor], lit ''.htpasswd'' @ [EndAnchor]]),
     (''database'',
        [lit ''.sql'' @ [EndAnchor], lit ''.db'' @ [EndAnchor], lit ''.sqlite'',
         lit ''database'', lit ''backup.'', lit ''dump.'',
         lit ''.mdb'' @ [EndAnchor], lit ''.accdb'' @ [EndAnchor]]),
     (''source_code'',
        [lit ''.git/'', lit ''.svn/'', lit ''.hg/'',
         lit ''.env.local'', lit ''.env.production'']),
     (''cloud_config'',
        [lit ''.aws/'', lit ''.azure/'', lit ''.gcp/'',
         lit ''credentials.json'', lit ''service'' @ [OptSet ''-_''] @ lit ''account'']),
     (''logs'',
        [lit ''.log'' @ [EndAnchor], lit ''access_log'', lit ''error_log'',
         lit ''debug.'', lit ''trace.''])]"

text \<open>The inner loop over one category's patterns: some pattern is found in the name.\<close>

definition matches_category :: "pattern list \<Rightarrow> string \<Rightarrow> bool" where
  "matches_category patterns file_lower = list_ex (\<lambda>p. re_search p file_lower) patterns"

text \<open>The loop over the categories for one file of \<open>_detect_sensitive_files\<close>: the file is
  appended at a category with a matching pattern, and the loop over the categories stops
  as soon as the file is in the list \<open>sensitive\<close>.\<close>

fun detect_in_categories ::
  "(string \<times> pattern list) list \<Rightarrow> string \<Rightarrow> string list \<Rightarrow> string list" where
  "detect_in_categories [] file sensitive = sensitive"
| "detect_in_categories ((category, patterns) # rest) file sensitive =
     (let sensitive' = (if matches_category patterns (lower file)
                        then sensitive @ [file] else sensitive)
      in if file \<in> set sensitive' then sensitive'
         else detect_in_categories rest file sensitive')"

definition detect_sensitive_files :: "string list \<Rightarrow> string list" where
  "detect_sensitive_files files =
     foldl (\<lambda>sensitive file. detect_in_categories SENSITIVE_PATTERNS file sensitive) [] files"

text \<open>\<open>file.rsplit('.', 1)[-1]\<close>: what follows the last dot.\<close>

definition after_last_dot :: "string \<Rightarrow> string" where
  "after_last_dot file = rev (takeWhile (\<lambda>c. c \<noteq> CHR ''.'') (rev file))"

definition analyze_file_types :: "string list \<Rightarrow> (string \<times> int) list" where
  "analyze_file_types files =
     foldl (\<lambda>file_types file.
              let ext = (if CHR ''.'' \<in> set file then lower (after_last_dot file)
                         else ''no_extension'')
              in AList.update ext
                   ((case map_of file_types ext of None \<Rightarrow> 0 | Some n \<Rightarrow> n) + 1) file_types)
           [] files"

definition high_risk_patterns :: "string list" where
  "high_risk_patterns =
     [''password'', ''secret'', ''.env'', ''credential'',
      ''private'', ''.key'', ''.pem'', ''id_rsa'']"

definition calculate_risk_score :: "string list \<Rightarrow> string list \<Rightarrow> int" where
  "calculate_risk_score files sensitive_files =
     (if files = [] then 0
      else
        let score = 0;
            score = score + 10;
            score = (if len files > 1000 then score + 20
                     else if len files > 100 then score + 15
                     else if len files > 10 then score + 10
                     else score + 5);
            score = (if sensitive_files \<noteq> []
                     then score + py_int (py_fmul (py_truediv (len sensitive_files) (len files)) 50)
                     else score);
            score = foldl (\<lambda>score file.
                             if any_in high_risk_patterns (lower file) then score + 5 else score)
                          score sensitive_files
        in min score 100)"

text \<open>\<open>categorized[category].append(file)\<close>, the key being created with an empty list
  when it is missing. The dict keeps the order in which its keys were inserted.\<close>

definition append_to ::
  "string \<Rightarrow> string \<Rightarrow> (string \<times> string list) list \<Rightarrow> (string \<times> string list) list" where
  "append_to category file categorized =
     AList.update category
       ((case map_of categorized category of None \<Rightarrow> [] | Some fs \<Rightarrow> fs) @ [file]) categorized"

text \<open>The loop over the categories for one file of \<open>_generate_findings\<close>: the \<open>break\<close>
  leaves the loop over the patterns of one category, the loop over the categories goes on.\<close>

fun categorize_file ::
  "(string \<times> pattern list) list \<Rightarrow> string \<Rightarrow> (string \<times> string list) list \<Rightarrow>
   (string \<times> string list) list" where
  "categorize_file [] file categorized = categorized"
| "categorize_file ((category, patterns) # rest) file categorized =
     categorize_file rest file
       (if matches_category patterns (lower file) then append_to category file categorized
        else categorized)"

definition categorize :: "string list \<Rightarrow> (string \<times> string list) list" where
  "categorize sensitive_files =
     foldl (\<lambda>categorized file. categorize_file SENSITIVE_PATTERNS file categorized)
           [] sensitive_files"

definition get_category_severity :: "string \<Rightarrow> string" where
  "get_category_severity category =
     (if category \<in> set [''credentials'', ''private_keys'', ''cloud_config''] then ''critical''
      else if category \<in> set [''database'', ''config_files''] then ''high''
      else if category \<in> set [''source_code'', ''logs''] then ''medium''
      else ''low'')"

definition get_category_description :: "string \<Rightarrow> string" where
  "get_category_description category =
     (case map_of
        [(''credentials'', ''Environment files, secrets, passwords, or API keys detected''),
         (''private_keys'', ''Private cryptographic keys or certificates found''),
         (''config_files'', ''Configuration files that may contain sensitive settings''),
         (''database'', ''Database files, backups, or SQL dumps discovered''),
         (''source_code'', ''Source code repository files or version control data''),
         (''cloud_config'', ''Cloud provider configuration or service account files''),
         (''logs'', ''Log files that may contain sensitive information'')] category of
        Some d \<Rightarrow> d
      | None \<Rightarrow> ''Potentially sensitive files detected'')"

definition generate_findings :: "string list \<Rightarrow> string list \<Rightarrow> finding list" where
  "generate_findings files sensitive_files =
     map (\<lambda>(category, files_list).
            \<lparr> f_category = category,
              f_severity = get_category_severity category,
              f_count = len files_list,
              f_files = take 10 files_list,
              f_description = get_category_description category \<rparr>)
         (categorize sensitive_files)"

definition analyze :: "string \<Rightarrow> string list \<Rightarrow> ContentAnalysisResult" where
  "analyze bucket_name files =
     (if files = [] then
        \<lparr> ca_bucket_name = bucket_name, ca_total_files = 0, ca_sensitive_files = [],
          ca_file_types = [], ca_risk_score = 0, ca_findings = [] \<rparr>
      else
        let sensitive_files = detect_sensitive_files files;
            file_types = analyze_file_types files;
            risk_score = calculate_risk_score files sensitive_files;
            findings = generate_findings files sensitive_files
        in \<lparr> ca_bucket_name = bucket_name, ca_total_files = len files,
             ca_sensitive_files = sensitive_files, ca_file_types = file_types,
             ca_risk_score = risk_score, ca_findings = findings \<rparr>)"

text \<open>Two notions to state properties with: the file matches the pattern table of the
  named category, and the file matches the table of some category.\<close>

definition in_category :: "string \<Rightarrow> string \<Rightarrow> bool" where
  "in_category category file =
     (case map_of SENSITIVE_PATTERNS category of
        None \<Rightarrow> False
      | Some patterns \<Rightarrow> matches_category patterns (lower file))"

definition is_sensitive :: "string \<Rightarrow> bool" where
  "is_sensitive file =
     list_ex (\<lambda>(category, patterns). matches_category patterns (lower file)) SENSITIVE_PATTERNS"

section \<open>Exceptions\<close>

text \<open>
  A call that may raise returns \<open>Inl e\<close> for the exception \<open>e\<close> and \<open>Inr v\<close> for the value
  \<open>v\<close>. The values of \<open>exn\<close> are the instances of Python's \<open>Exception\<close> that the except
  clauses of the scanners tell apart, each with its message (\<open>str(e)\<close>); a botocore
  \<open>ClientError\<close> carries the error code of its response as well. \<open>HttpResponseError\<close>
  stands for every Azure \<open>HttpResponseError\<close> that is not a \<open>ResourceNotFoundError\<close>,
  whatever the status of the response (403, 409, 500, 503, ...); \<open>OtherException\<close> stands
  for every exception of no class named here.
\<close>

datatype exn =
    ClientError string string
  | NotFound string
  | Forbidden string
  | ResourceNotFoundError string
  | HttpResponseError string
  | OtherException string

fun str :: "exn \<Rightarrow> string" where
  "str (ClientError code msg) = msg"
| "str (NotFound msg) = msg"
| "str (Forbidden msg) = msg"
| "str (ResourceNotFoundError msg) = msg"
| "str (HttpResponseError msg) = msg"
| "str (OtherException msg) = msg"

text \<open>Sequencing of calls that may raise, and \<open>try: ... except Exception as e: ...\<close>.\<close>

definition bind_exn :: "exn + 'a \<Rightarrow> ('a \<Rightarrow> exn + 'b) \<Rightarrow> exn + 'b" where
  "bind_exn m f = (case m of Inl e \<Rightarrow> Inl e | Inr v \<Rightarrow> f v)"

definition try_except :: "exn + 'a \<Rightarrow> (exn \<Rightarrow> exn + 'a) \<Rightarrow> exn + 'a" where
  "try_except body handler = (case body of Inl e \<Rightarrow> handler e | Inr v \<Rightarrow> Inr v)"

section \<open>Base scanner (src/scanner/base\_scanner.py)\<close>

datatype BucketAccessLevel =
  PRIVATE | PUBLIC_READ | PUBLIC_WRITE | PUBLIC_READ_WRITE | AUTHENTICATED_READ | UNKNOWN

datatype CloudProvider = AWS_S3 | GCP_GCS | AZURE_BLOB

record BucketScanResult =
  bs_provider :: CloudProvider
  bs_bucket_name :: string
  bs_exists :: bool
  bs_is_accessible :: bool
  bs_access_level :: BucketAccessLevel
  bs_permissions :: "string list"
  bs_url :: string
  bs_files_found :: "string list option"
  bs_sensitive_files :: "string list option"
  bs_error :: "string option"
  bs_metadata :: "(string \<times> string) list option"

text \<open>A scanner: its provider and the abstract methods of \<open>BaseScanner\<close>, each with the
  outcome of its call for a bucket name (\<open>list_files\<close> is called with the default
  \<open>max_files\<close>).\<close>

record scanner =
  self_provider :: CloudProvider
  check_bucket_exists :: "string \<Rightarrow> exn + bool"
  check_public_access :: "string \<Rightarrow> exn + BucketAccessLevel"
  list_files :: "string \<Rightarrow> exn + string list"
  get_bucket_permissions :: "string \<Rightarrow> exn + string list"
  get_bucket_url :: "string \<Rightarrow> string"

definition base_sensitive_patterns :: "string list" where
  "base_sensitive_patterns =
     [''.env'', ''config'', ''secret'', ''password'', ''credential'',
      ''token'', ''key'', ''private'', ''.pem'', ''.key'', ''.ppk'',
      ''backup'', ''.sql'', ''.db'', ''database'', ''admin'',
      ''wp-config'', ''.git'', ''.aws'', ''id_rsa'']"

definition base_detect_sensitive_files :: "string list \<Rightarrow> string list" where
  "base_detect_sensitive_files files =
     foldl (\<lambda>sensitive file.
              if any_in base_sensitive_patterns (lower file) then sensitive @ [file]
              else sensitive)
           [] files"

text \<open>The body of the \<open>try\<close> block of \<open>scan_bucket\<close>.\<close>

definition scan_bucket_body :: "scanner \<Rightarrow> string \<Rightarrow> exn + BucketScanResult" where
  "scan_bucket_body self bucket_name =
     bind_exn (check_bucket_exists self bucket_name) (\<lambda>exists.
       if \<not> exists then
         Inr \<lparr> bs_provider = self_provider self, bs_bucket_name = bucket_name,
               bs_exists = False, bs_is_accessible = False, bs_access_level = UNKNOWN,
               bs_permissions = [], bs_url = get_bucket_url self bucket_name,
               bs_files_found = None, bs_sensitive_files = None,
               bs_error = Some ''Bucket does not exist'', bs_metadata = None \<rparr>
       else
         bind_exn (check_public_access self bucket_name) (\<lambda>access_level.
           let is_accessible = (access_level \<notin> set [PRIVATE, UNKNOWN]) in
           bind_exn (get_bucket_permissions self bucket_name) (\<lambda>permissions.
             bind_exn (if is_accessible
                       then bind_exn (list_files self bucket_name) (\<lambda>files_found.
                              Inr (Some files_found,
                                   Some (base_detect_sensitive_files files_found)))
                       else Inr (None, None)) (\<lambda>(files_found, sensitive_files).
               Inr \<lparr> bs_provider = self_provider self, bs_bucket_name = bucket_name,
                     bs_exists = True, bs_is_accessible = is_accessible,
                     bs_access_level = access_level, bs_permissions = permissions,
                     bs_url = get_bucket_url self bucket_name,
                     bs_files_found = files_found, bs_sensitive_files = sensitive_files,
                     bs_error = None, bs_metadata = None \<rparr>))))"

definition scan_bucket :: "scanner \<Rightarrow> string \<Rightarrow> exn + BucketScanResult" where
  "scan_bucket self bucket_name =
     try_except (scan_bucket_body self bucket_name) (\<lambda>e.
       Inr \<lparr> bs_provider = self_provider self, bs_bucket_name = bucket_name,
             bs_exists = False, bs_is_accessible = False, bs_access_level = UNKNOWN,
             bs_permissions = [], bs_url = get_bucket_url self bucket_name,
             bs_files_found = None, bs_sensitive_files = None,
             bs_error = Some (str e), bs_metadata = None \<rparr>)"

section \<open>Existence checks of the three providers\<close>

text \<open>
  The outcomes of the calls that leave the process: the HTTP HEAD request for a URL (a
  status code, or the exception of a timeout or a connection failure) and the native
  client call of each provider for a bucket name.
\<close>

record network =
  http_head :: "string \<Rightarrow> exn + nat"
  s3_head_bucket :: "string \<Rightarrow> exn + unit"
  gcs_bucket_reload :: "string \<Rightarrow> exn + unit"
  azure_get_container_properties :: "string \<Rightarrow> exn + unit"

text \<open>\<open>AWSS3Scanner.check_bucket_exists\<close> (src/scanner/aws\_scanner.py).\<close>

definition aws_check_bucket_exists :: "network \<Rightarrow> string \<Rightarrow> exn + bool" where
  "aws_check_bucket_exists net bucket_name =
     try_except
       (let url = ''https://'' @ bucket_name @ ''.s3.amazonaws.com'' in
        bind_exn (http_head net url) (\<lambda>status_code.
          Inr (status_code \<in> set [200, 403, 301])))
       (\<lambda>_. case s3_head_bucket net bucket_name of
               Inr _ \<Rightarrow> Inr True
             | Inl (ClientError error_code msg) \<Rightarrow> Inr (error_code = ''403'')
             | Inl _ \<Rightarrow> Inr False)"

text \<open>\<open>GCPStorageScanner.check_bucket_exists\<close> (src/scanner/gcp\_scanner.py).\<close>

definition gcp_check_bucket_exists :: "network \<Rightarrow> string \<Rightarrow> exn + bool" where
  "gcp_check_bucket_exists net bucket_name =
     try_except
       (let url = ''https://storage.googleapis.com/'' @ bucket_name in
        bind_exn (http_head net url) (\<lambda>status_code.
          Inr (status_code \<in> set [200, 403])))
       (\<lambda>_. case gcs_bucket_reload net bucket_name of
               Inr _ \<Rightarrow> Inr True
             | Inl (NotFound msg) \<Rightarrow> Inr False
             | Inl (Forbidden msg) \<Rightarrow> Inr True
             | Inl _ \<Rightarrow> Inr False)"

text \<open>\<open>AzureBlobScanner.check_bucket_exists\<close> (src/scanner/azure\_scanner.py). The scanner
  holds its account name, and a service client unless it was built without credentials.\<close>

record azure_scanner =
  account_name :: string
  blob_service_client :: bool

definition azure_check_bucket_exists ::
  "azure_scanner \<Rightarrow> network \<Rightarrow> string \<Rightarrow> exn + bool" where
  "azure_check_bucket_exists self net bucket_name =
     try_except
       (let url = ''https://'' @ account_name self @ ''.blob.core.windows.net/'' @ bucket_name
                  @ ''?restype=container'' in
        bind_exn (http_head net url) (\<lambda>status_code.
          Inr (status_code \<in> set [200, 403, 409])))
       (\<lambda>_. if blob_service_client self then
               (case azure_get_container_properties net bucket_name of
                  Inr _ \<Rightarrow> Inr True
                | Inl (ResourceNotFoundError msg) \<Rightarrow> Inr False
                | Inl (HttpResponseError msg) \<Rightarrow> Inr True
                | Inl _ \<Rightarrow> Inr False)
             else Inr False)"

section \<open>Orchestrator (src/scanner/orchestrator.py)\<close>

text \<open>
  \<open>self.scanners\<close> is a dict from provider to scanner object; what the orchestrator uses
  of a scanner is its method \<open>scan_bucket\<close>, so an entry of the dict is that method.
  \<open>__init__\<close> registers the three scanners, which inherit \<open>BaseScanner.scan_bucket\<close>.
\<close>

type_synonym scanners = "(CloudProvider \<times> (string \<Rightarrow> exn + BucketScanResult)) list"

definition orchestrator_init :: "scanner \<Rightarrow> scanner \<Rightarrow> scanner \<Rightarrow> scanners" where
  "orchestrator_init aws gcp azure =
     AList.update AZURE_BLOB (scan_bucket azure)
       (AList.update GCP_GCS (scan_bucket gcp)
         (AList.update AWS_S3 (scan_bucket aws) []))"

text \<open>\<open>asyncio.gather(*tasks, return_exceptions=True)\<close> followed by the filter on
  \<open>isinstance(r, BucketScanResult)\<close>: the values of the tasks that returned, in task
  order.\<close>

fun returned :: "(exn + 'a) list \<Rightarrow> 'a list" where
  "returned [] = []"
| "returned (Inr r # rs) = r # returned rs"
| "returned (Inl e # rs) = returned rs"

definition orchestrator_scan_bucket ::
  "scanners \<Rightarrow> string \<Rightarrow> CloudProvider option \<Rightarrow> exn + BucketScanResult list" where
  "orchestrator_scan_bucket scanners bucket_name provider =
     (case provider of
        Some p \<Rightarrow>
          (case map_of scanners p of
             Some scanner \<Rightarrow> bind_exn (scanner bucket_name) (\<lambda>result. Inr ([] @ [result]))
           | None \<Rightarrow> Inr [])
      | None \<Rightarrow>
          Inr (returned (map (\<lambda>(p, scanner). scanner bucket_name) scanners)))"

section \<open>Example inputs\<close>

text \<open>A network on which every call times out, and one that answers for a bucket that
  does not exist.\<close>

definition timeout_network :: network where
  "timeout_network =
     \<lparr> http_head = (\<lambda>url. Inl (OtherException ''timed out'')),
       s3_head_bucket = (\<lambda>b. Inl (OtherException ''timed out'')),
       gcs_bucket_reload = (\<lambda>b. Inl (OtherException ''timed out'')),
       azure_get_container_properties = (\<lambda>b. Inl (OtherException ''timed out'')) \<rparr>"

definition missing_network :: network where
  "missing_network =
     \<lparr> http_head = (\<lambda>url. Inr 404),
       s3_head_bucket = (\<lambda>b. Inl (ClientError ''404'' ''Not Found'')),
       gcs_bucket_reload = (\<lambda>b. Inl (NotFound ''404 bucket not found'')),
       azure_get_container_properties =
         (\<lambda>b. Inl (ResourceNotFoundError ''The specified container does not exist.'')) \<rparr>"

text \<open>A network whose HTTP probe fails and whose native clients are denied access.\<close>

definition denied_network :: network where
  "denied_network =
     \<lparr> http_head = (\<lambda>url. Inl (OtherException ''connection refused'')),
       s3_head_bucket = (\<lambda>b. Inl (ClientError ''403'' ''Forbidden'')),
       gcs_bucket_reload = (\<lambda>b. Inl (Forbidden ''403 access denied'')),
       azure_get_container_properties = (\<lambda>b. Inl (HttpResponseError ''403 forbidden'')) \<rparr>"

text \<open>A network whose HTTP probe times out and whose native calls are answered with
  status 503 by a busy server.\<close>

definition server_busy_network :: network where
  "server_busy_network =
     \<lparr> http_head = (\<lambda>url. Inl (OtherException ''timed out'')),
       s3_head_bucket = (\<lambda>b. Inl (ClientError ''503'' ''Service Unavailable'')),
       gcs_bucket_reload = (\<lambda>b. Inl (OtherException ''503 Service Unavailable'')),
       azure_get_container_properties =
         (\<lambda>b. Inl (HttpResponseError ''503 The server is busy.'')) \<rparr>"

text \<open>An S3 scanner on a given network; only its existence check is the one of the
  class, the other operations give fixed answers.\<close>

definition s3_scanner :: "network \<Rightarrow> scanner" where
  "s3_scanner net =
     \<lparr> self_provider = AWS_S3,
       check_bucket_exists = aws_check_bucket_exists net,
       check_public_access = (\<lambda>b. Inr PUBLIC_READ),
       list_files = (\<lambda>b. Inr [''.env'', ''index.html'']),
       get_bucket_permissions = (\<lambda>b. Inr [''list'']),
       get_bucket_url = (\<lambda>b. ''https://'' @ b @ ''.s3.amazonaws.com'') \<rparr>"

text \<open>A scanner whose bucket exists and is public, and whose listing fails.\<close>

definition listing_fails_scanner :: scanner where
  "listing_fails_scanner =
     \<lparr> self_provider = GCP_GCS,
       check_bucket_exists = (\<lambda>b. Inr True),
       check_public_access = (\<lambda>b. Inr PUBLIC_READ),
       list_files = (\<lambda>b. Inl (OtherException ''connection reset'')),
       get_bucket_permissions = (\<lambda>b. Inr [''list'']),
       get_bucket_url = (\<lambda>b. ''https://storage.googleapis.com/'' @ b) \<rparr>"

text \<open>A registry with two scanners: the second one overrides \<open>scan_bucket\<close> with a
  method that raises, and no scanner is registered for Azure.\<close>

definition partial_scanners :: scanners where
  "partial_scanners =
     [(AWS_S3, scan_bucket (s3_scanner missing_network)),
      (GCP_GCS, (\<lambda>b. Inl (OtherException ''unexpected'')))]"

section \<open>Substring test and library notions\<close>

lemma startswith_iff_prefix: "startswith p s \<longleftrightarrow> prefix p s"
  by (induction p s rule: startswith.induct) auto

lemma str_in_iff_sublist: "str_in p s \<longleftrightarrow> sublist p s"
  by (induction s) (auto simp: startswith_iff_prefix sublist_Cons_right)

lemma any_in_iff: "any_in ps s \<longleftrightarrow> (\<exists>p \<in> set ps. sublist p s)"
  by (simp add: any_in_def list_ex_iff str_in_iff_sublist)

section \<open>Properties of the permission checker\<close>

text \<open>
  Claim C2. The risk level of \<open>analyze_permissions\<close> follows the decision table, the first
  matching row winning: not public gives low; public and writable gives critical, whatever
  the files are; public with a file whose lower-cased name contains one of .env, secret,
  password, credential, key, .pem gives high; every other public input (files or none)
  gives medium. The second conjunct is the same table for \<open>_calculate_risk_level\<close> with
  an arbitrary writable flag.
\<close>

theorem analyze_permissions_risk_level:
  "pc_risk_level (analyze_permissions b prov perms is_public files) =
     (if \<not> is_public then ''low''
      else if pc_is_writable (analyze_permissions b prov perms is_public files) then ''critical''
      else if \<exists>f \<in> set (files_of files).
                \<exists>p \<in> {''.env'', ''secret'', ''password'', ''credential'', ''key'', ''.pem''}.
                  sublist p (lower f)
        then ''high''
      else ''medium'') \<and>
   calculate_risk_level is_public is_writable pts files =
     (if \<not> is_public then ''low''
      else if is_writable then ''critical''
      else if \<exists>f \<in> set (files_of files).
                \<exists>p \<in> {''.env'', ''secret'', ''password'', ''credential'', ''key'', ''.pem''}.
                  sublist p (lower f)
        then ''high''
      else ''medium'')"
proof -
  have table: "calculate_risk_level pub wr ps files =
     (if \<not> pub then ''low''
      else if wr then ''critical''
      else if \<exists>f \<in> set (files_of files).
                \<exists>p \<in> {''.env'', ''secret'', ''password'', ''credential'', ''key'', ''.pem''}.
                  sublist p (lower f)
        then ''high''
      else ''medium'')" for pub wr ps
    by (auto simp: calculate_risk_level_def truthy_def files_of_def list_ex_iff any_in_iff
          risk_sensitive_patterns_def split: option.splits)
  have "pc_risk_level (analyze_permissions b prov perms is_public files) =
        calculate_risk_level is_public
          (pc_is_writable (analyze_permissions b prov perms is_public files))
          (map_permissions perms) files"
    by (simp add: analyze_permissions_def Let_def)
  then show ?thesis
    by (simp only: table)
qed

theorem analyze_permissions_risk_level_witness:
  "pc_risk_level (analyze_permissions ''test-bucket'' ''aws_s3'' [''list'', ''read''] True
     (Some [''.env'', ''config.json''])) = ''high''"
proof -
  let ?r = "analyze_permissions ''test-bucket'' ''aws_s3'' [''list'', ''read''] True
              (Some [''.env'', ''config.json''])"
  have h1: "\<not> pc_is_writable ?r"
    by (simp add: analyze_permissions_def map_permissions_def Let_def)
  have "sublist ''.env'' (lower ''.env'')"
    by (simp add: lower_def lower_char_def)
  then have h2: "\<exists>f \<in> set (files_of (Some [''.env'', ''config.json''])).
                \<exists>p \<in> {''.env'', ''secret'', ''password'', ''credential'', ''key'', ''.pem''}.
                  sublist p (lower f)"
    by (simp add: files_of_def)
  show ?thesis
    using analyze_permissions_risk_level [of "''test-bucket''" "''aws_s3''"
        "[''list'', ''read'']" True "Some [''.env'', ''config.json'']"] h1 h2
    by (simp only: if_True if_False not_True_eq_False)
qed

text \<open>
  Claim C10. The permissions of the result are among LIST, READ, WRITE and DELETE, so
  READ\_ACL and WRITE\_ACL never occur in them, and the result is writable exactly when the
  raw permission list contains \<open>write\<close>, \<open>put\<close> or \<open>delete\<close>.
\<close>

theorem analyze_permissions_no_acl:
  "set (pc_permissions (analyze_permissions b prov perms is_public files))
     \<subseteq> {LIST, READ, WRITE, DELETE} \<and>
   READ_ACL \<notin> set (pc_permissions (analyze_permissions b prov perms is_public files)) \<and>
   WRITE_ACL \<notin> set (pc_permissions (analyze_permissions b prov perms is_public files)) \<and>
   (pc_is_writable (analyze_permissions b prov perms is_public files) \<longleftrightarrow>
      ''write'' \<in> set perms \<or> ''put'' \<in> set perms \<or> ''delete'' \<in> set perms)"
  by (auto simp: analyze_permissions_def map_permissions_def Let_def)

theorem analyze_permissions_no_acl_witness:
  "pc_permissions (analyze_permissions ''b'' ''gcp_gcs'' [''put'', ''write_acl'', ''get''] True None)
     = [READ, WRITE] \<and>
   pc_is_writable (analyze_permissions ''b'' ''gcp_gcs'' [''put'', ''write_acl'', ''get''] True None)"
proof -
  have "pc_permissions
          (analyze_permissions ''b'' ''gcp_gcs'' [''put'', ''write_acl'', ''get''] True None)
        = [READ, WRITE]"
    by (simp add: analyze_permissions_def map_permissions_def Let_def)
  moreover have "''put'' \<in> set [''put'', ''write_acl'', ''get'']"
    by simp
  ultimately show ?thesis
    using analyze_permissions_no_acl [of "''b''" "''gcp_gcs''" "[''put'', ''write_acl'', ''get'']"
        True None]
    by blast
qed

section \<open>Properties of the base scanner\<close>

lemma scan_bucket_returns: "\<exists>r. scan_bucket self name = Inr r"
  by (cases "scan_bucket_body self name") (simp_all add: scan_bucket_def try_except_def)

lemma scan_bucket_body_raises:
  assumes "check_bucket_exists self name = Inl e
     \<or> (check_bucket_exists self name = Inr True \<and>
        (check_public_access self name = Inl e
         \<or> (\<exists>a. check_public_access self name = Inr a \<and>
              (get_bucket_permissions self name = Inl e
               \<or> (\<exists>p. get_bucket_permissions self name = Inr p \<and> a \<notin> {PRIVATE, UNKNOWN} \<and>
                     list_files self name = Inl e)))))"
  shows "scan_bucket_body self name = Inl e"
  using assms by (auto simp: scan_bucket_body_def bind_exn_def Let_def)

lemma scan_bucket_not_exists_fields:
  assumes "scan_bucket self name = Inr r" "\<not> bs_exists r"
  shows "\<not> bs_is_accessible r \<and> bs_permissions r = [] \<and> bs_files_found r = None \<and>
         bs_sensitive_files r = None \<and> bs_access_level r = UNKNOWN"
  using assms
  by (auto simp: scan_bucket_def try_except_def scan_bucket_body_def bind_exn_def Let_def
        split: sum.splits if_splits prod.splits)

text \<open>
  Claim C3. \<open>scan_bucket\<close> never raises: it returns a result for every scanner and bucket
  name. When the existence check raises, or the bucket exists and the access-level check,
  the permission check or (for an accessible bucket) the listing is the first step to
  raise, with exception \<open>e\<close>, the result has \<open>exists = False\<close>, access level unknown and the
  error \<open>str(e)\<close>. In every result with \<open>exists = False\<close> the bucket is not accessible,
  the permissions are empty and \<open>files_found\<close> and \<open>sensitive_files\<close> are absent.
\<close>

theorem scan_bucket_never_raises:
  "\<exists>r. scan_bucket self name = Inr r
     \<and> (\<not> bs_exists r \<longrightarrow>
          \<not> bs_is_accessible r \<and> bs_permissions r = [] \<and> bs_files_found r = None \<and>
          bs_sensitive_files r = None)
     \<and> (\<forall>e. (check_bucket_exists self name = Inl e
             \<or> (check_bucket_exists self name = Inr True \<and>
                (check_public_access self name = Inl e
                 \<or> (\<exists>a. check_public_access self name = Inr a \<and>
                      (get_bucket_permissions self name = Inl e
                       \<or> (\<exists>p. get_bucket_permissions self name = Inr p \<and>
                             a \<notin> {PRIVATE, UNKNOWN} \<and> list_files self name = Inl e))))))
            \<longrightarrow> \<not> bs_exists r \<and> bs_access_level r = UNKNOWN \<and> bs_error r = Some (str e))"
proof -
  obtain r where r: "scan_bucket self name = Inr r"
    using scan_bucket_returns by blast
  have fields: "\<not> bs_exists r \<longrightarrow>
          \<not> bs_is_accessible r \<and> bs_permissions r = [] \<and> bs_files_found r = None \<and>
          bs_sensitive_files r = None"
    using scan_bucket_not_exists_fields [OF r] by blast
  have caught: "\<not> bs_exists r \<and> bs_access_level r = UNKNOWN \<and> bs_error r = Some (str e)"
    if "scan_bucket_body self name = Inl e" for e
    using that r by (auto simp: scan_bucket_def try_except_def)
  show ?thesis
    using r fields caught scan_bucket_body_raises [of self name] by blast
qed

theorem scan_bucket_never_raises_witness:
  "\<exists>r. scan_bucket listing_fails_scanner ''b'' = Inr r \<and> \<not> bs_exists r \<and>
       \<not> bs_is_accessible r \<and> bs_permissions r = [] \<and> bs_files_found r = None \<and>
       bs_sensitive_files r = None \<and> bs_access_level r = UNKNOWN \<and>
       bs_error r = Some ''connection reset''"
proof -
  have raised:
    "check_bucket_exists listing_fails_scanner ''b'' = Inr True \<and>
     check_public_access listing_fails_scanner ''b'' = Inr PUBLIC_READ \<and>
     get_bucket_permissions listing_fails_scanner ''b'' = Inr [''list''] \<and>
     PUBLIC_READ \<notin> {PRIVATE, UNKNOWN} \<and>
     list_files listing_fails_scanner ''b'' = Inl (OtherException ''connection reset'')"
    by (simp add: listing_fails_scanner_def)
  from scan_bucket_never_raises [of listing_fails_scanner "''b''"]
  obtain r where r: "scan_bucket listing_fails_scanner ''b'' = Inr r"
    and fields: "\<not> bs_exists r \<longrightarrow>
          \<not> bs_is_accessible r \<and> bs_permissions r = [] \<and> bs_files_found r = None \<and>
          bs_sensitive_files r = None"
    and caught: "\<And>e. (check_bucket_exists listing_fails_scanner ''b'' = Inl e
             \<or> (check_bucket_exists listing_fails_scanner ''b'' = Inr True \<and>
                (check_public_access listing_fails_scanner ''b'' = Inl e
                 \<or> (\<exists>a. check_public_access listing_fails_scanner ''b'' = Inr a \<and>
                      (get_bucket_permissions listing_fails_scanner ''b'' = Inl e
                       \<or> (\<exists>p. get_bucket_permissions listing_fails_scanner ''b'' = Inr p \<and>
                             a \<notin> {PRIVATE, UNKNOWN} \<and>
                             list_files listing_fails_scanner ''b'' = Inl e))))))
            \<Longrightarrow> \<not> bs_exists r \<and> bs_access_level r = UNKNOWN \<and> bs_error r = Some (str e)"
    by blast
  have "\<not> bs_exists r \<and> bs_access_level r = UNKNOWN \<and>
        bs_error r = Some (str (OtherException ''connection reset''))"
    using raised by (intro caught) blast
  with r fields show ?thesis by simp
qed

text \<open>
  Claim C9, as the code has it. When the existence check returns false, \<open>scan_bucket\<close>
  returns, without raising, a result with \<open>exists = False\<close> whose error field is set to
  the fixed text \<open>Bucket does not exist\<close>.
\<close>

theorem scan_bucket_nonexistent:
  assumes "check_bucket_exists self name = Inr False"
  shows "\<exists>r. scan_bucket self name = Inr r \<and> \<not> bs_exists r \<and>
             bs_error r = Some ''Bucket does not exist''"
  using assms by (simp add: scan_bucket_def try_except_def scan_bucket_body_def bind_exn_def)

theorem scan_bucket_nonexistent_witness:
  "check_bucket_exists (s3_scanner missing_network) ''no-such-bucket'' = Inr False \<and>
   (\<exists>r. scan_bucket (s3_scanner missing_network) ''no-such-bucket'' = Inr r \<and> \<not> bs_exists r \<and>
        bs_error r = Some ''Bucket does not exist'')"
proof -
  have h: "check_bucket_exists (s3_scanner missing_network) ''no-such-bucket'' = Inr False"
    by (simp add: s3_scanner_def missing_network_def aws_check_bucket_exists_def
          try_except_def bind_exn_def)
  show ?thesis
    using h scan_bucket_nonexistent [OF h] by simp
qed

text \<open>
  Claim C9 as stated asks that no error is reported for a bucket that merely does not
  exist. For the S3 scanner on a network that answers 404, the result carries an error
  text.
\<close>

theorem scan_bucket_nonexistent_error_counterexample:
  "scan_bucket (s3_scanner missing_network) ''no-such-bucket'' =
     Inr \<lparr> bs_provider = AWS_S3, bs_bucket_name = ''no-such-bucket'',
           bs_exists = False, bs_is_accessible = False, bs_access_level = UNKNOWN,
           bs_permissions = [], bs_url = ''https://no-such-bucket.s3.amazonaws.com'',
           bs_files_found = None, bs_sensitive_files = None,
           bs_error = Some ''Bucket does not exist'', bs_metadata = None \<rparr>"
  by (simp add: scan_bucket_def scan_bucket_body_def s3_scanner_def missing_network_def
        aws_check_bucket_exists_def try_except_def bind_exn_def)

section \<open>Properties of the existence checks\<close>

lemma aws_exists_returns: "\<exists>b. aws_check_bucket_exists net name = Inr b"
  by (auto simp: aws_check_bucket_exists_def try_except_def bind_exn_def Let_def
        split: sum.splits exn.splits)

lemma gcp_exists_returns: "\<exists>b. gcp_check_bucket_exists net name = Inr b"
  by (auto simp: gcp_check_bucket_exists_def try_except_def bind_exn_def Let_def
        split: sum.splits exn.splits)

lemma azure_exists_returns: "\<exists>b. azure_check_bucket_exists self net name = Inr b"
  by (auto simp: azure_check_bucket_exists_def try_except_def bind_exn_def Let_def
        split: sum.splits exn.splits)

lemma aws_exists_cases:
  "aws_check_bucket_exists net name =
     (case http_head net (''https://'' @ name @ ''.s3.amazonaws.com'') of
        Inr code \<Rightarrow> Inr (code = 200 \<or> code = 403 \<or> code = 301)
      | Inl e \<Rightarrow>
          (case s3_head_bucket net name of
             Inr u \<Rightarrow> Inr True
           | Inl e' \<Rightarrow> Inr (\<exists>msg. e' = ClientError ''403'' msg)))"
  by (auto simp: aws_check_bucket_exists_def try_except_def bind_exn_def Let_def
        split: sum.splits exn.splits)

lemma gcp_exists_cases:
  "gcp_check_bucket_exists net name =
     (case http_head net (''https://storage.googleapis.com/'' @ name) of
        Inr code \<Rightarrow> Inr (code = 200 \<or> code = 403)
      | Inl e \<Rightarrow>
          (case gcs_bucket_reload net name of
             Inr u \<Rightarrow> Inr True
           | Inl e' \<Rightarrow> Inr (\<exists>msg. e' = Forbidden msg)))"
  by (auto simp: gcp_check_bucket_exists_def try_except_def bind_exn_def Let_def
        split: sum.splits exn.splits)

lemma azure_exists_cases:
  "azure_check_bucket_exists self net name =
     (case http_head net (''https://'' @ account_name self @ ''.blob.core.windows.net/'' @ name
                          @ ''?restype=container'') of
        Inr code \<Rightarrow> Inr (code = 200 \<or> code = 403 \<or> code = 409)
      | Inl e \<Rightarrow>
          (if blob_service_client self then
             (case azure_get_container_properties net name of
                Inr u \<Rightarrow> Inr True
              | Inl e' \<Rightarrow> Inr (\<exists>msg. e' = HttpResponseError msg))
           else Inr False))"
  by (auto simp: azure_check_bucket_exists_def try_except_def bind_exn_def Let_def
        split: sum.splits exn.splits)

text \<open>
  What the three existence checks return. For every bucket name, on every network, each
  check returns a truth value and never raises. When the HTTP HEAD probe answers, the
  check is true exactly for the status codes of the provider (S3: 200, 403, 301; GCS: 200,
  403; Azure: 200, 403, 409), so a 404 gives false. When the HTTP probe raises and the
  native call fails, the S3 check is true exactly for a ClientError with code 403, the GCS
  check exactly for Forbidden, and the Azure check, with a service client present, for
  every HttpResponseError that is not ResourceNotFoundError.
\<close>

lemma check_bucket_exists_outcomes:
  "(\<exists>b. aws_check_bucket_exists net name = Inr b) \<and>
   (\<exists>b. gcp_check_bucket_exists net name = Inr b) \<and>
   (\<exists>b. azure_check_bucket_exists az net name = Inr b) \<and>
   (\<forall>code. http_head net (''https://'' @ name @ ''.s3.amazonaws.com'') = Inr code \<longrightarrow>
      aws_check_bucket_exists net name = Inr (code \<in> {200, 403, 301})) \<and>
   (\<forall>code. http_head net (''https://storage.googleapis.com/'' @ name) = Inr code \<longrightarrow>
      gcp_check_bucket_exists net name = Inr (code \<in> {200, 403})) \<and>
   (\<forall>code. http_head net (''https://'' @ account_name az @ ''.blob.core.windows.net/'' @ name
                           @ ''?restype=container'') = Inr code \<longrightarrow>
      azure_check_bucket_exists az net name = Inr (code \<in> {200, 403, 409})) \<and>
   (\<forall>e e'. http_head net (''https://'' @ name @ ''.s3.amazonaws.com'') = Inl e \<and>
      s3_head_bucket net name = Inl e' \<longrightarrow>
      aws_check_bucket_exists net name = Inr (\<exists>msg. e' = ClientError ''403'' msg)) \<and>
   (\<forall>e e'. http_head net (''https://storage.googleapis.com/'' @ name) = Inl e \<and>
      gcs_bucket_reload net name = Inl e' \<longrightarrow>
      gcp_check_bucket_exists net name = Inr (\<exists>msg. e' = Forbidden msg)) \<and>
   (\<forall>e e'. http_head net (''https://'' @ account_name az @ ''.blob.core.windows.net/'' @ name
                           @ ''?restype=container'') = Inl e \<and>
      azure_get_container_properties net name = Inl e' \<longrightarrow>
      azure_check_bucket_exists az net name =
        Inr (blob_service_client az \<and> (\<exists>msg. e' = HttpResponseError msg)))"
proof -
  have a1: "\<exists>b. aws_check_bucket_exists net name = Inr b" by (rule aws_exists_returns)
  have a2: "\<exists>b. gcp_check_bucket_exists net name = Inr b" by (rule gcp_exists_returns)
  have a3: "\<exists>b. azure_check_bucket_exists az net name = Inr b" by (rule azure_exists_returns)
  have b1: "\<forall>code. http_head net (''https://'' @ name @ ''.s3.amazonaws.com'') = Inr code \<longrightarrow>
      aws_check_bucket_exists net name = Inr (code \<in> {200, 403, 301})"
    by (simp add: aws_exists_cases)
  have b2: "\<forall>code. http_head net (''https://storage.googleapis.com/'' @ name) = Inr code \<longrightarrow>
      gcp_check_bucket_exists net name = Inr (code \<in> {200, 403})"
    by (simp add: gcp_exists_cases)
  have b3: "\<forall>code. http_head net (''https://'' @ account_name az @ ''.blob.core.windows.net/'' @ name
                           @ ''?restype=container'') = Inr code \<longrightarrow>
      azure_check_bucket_exists az net name = Inr (code \<in> {200, 403, 409})"
    by (simp add: azure_exists_cases)
  have c1: "\<forall>e e'. http_head net (''https://'' @ name @ ''.s3.amazonaws.com'') = Inl e \<and>
      s3_head_bucket net name = Inl e' \<longrightarrow>
      aws_check_bucket_exists net name = Inr (\<exists>msg. e' = ClientError ''403'' msg)"
    by (simp add: aws_exists_cases)
  have c2: "\<forall>e e'. http_head net (''https://storage.googleapis.com/'' @ name) = Inl e \<and>
      gcs_bucket_reload net name = Inl e' \<longrightarrow>
      gcp_check_bucket_exists net name = Inr (\<exists>msg. e' = Forbidden msg)"
    by (simp add: gcp_exists_cases)
  have c3: "\<forall>e e'. http_head net (''https://'' @ account_name az @ ''.blob.core.windows.net/'' @ name
                           @ ''?restype=container'') = Inl e \<and>
      azure_get_container_properties net name = Inl e' \<longrightarrow>
      azure_check_bucket_exists az net name =
        Inr (blob_service_client az \<and> (\<exists>msg. e' = HttpResponseError msg))"
    by (simp add: azure_exists_cases)
  from a1 a2 a3 b1 b2 b3 c1 c2 c3 show ?thesis by (intro conjI)
qed

lemma check_bucket_exists_outcomes_examples:
  "aws_check_bucket_exists missing_network ''no-such-bucket'' = Inr False \<and>
   gcp_check_bucket_exists missing_network ''no-such-bucket'' = Inr False \<and>
   azure_check_bucket_exists \<lparr>account_name = ''acct'', blob_service_client = True\<rparr>
     missing_network ''no-such-bucket'' = Inr False \<and>
   aws_check_bucket_exists denied_network ''b'' = Inr True \<and>
   gcp_check_bucket_exists timeout_network ''b'' = Inr False"
proof -
  let ?az = "\<lparr>account_name = ''acct'', blob_service_client = True\<rparr>"
  have m: "http_head missing_network url = Inr 404" for url
    by (simp add: missing_network_def)
  have d: "http_head denied_network url = Inl (OtherException ''connection refused'') \<and>
           s3_head_bucket denied_network b = Inl (ClientError ''403'' ''Forbidden'')" for url b
    by (simp add: denied_network_def)
  have t: "http_head timeout_network url = Inl (OtherException ''timed out'') \<and>
           gcs_bucket_reload timeout_network b = Inl (OtherException ''timed out'')" for url b
    by (simp add: timeout_network_def)
  have "aws_check_bucket_exists missing_network ''no-such-bucket'' = Inr False"
    using check_bucket_exists_outcomes [of missing_network "''no-such-bucket''" ?az] m
    by simp
  moreover have "gcp_check_bucket_exists missing_network ''no-such-bucket'' = Inr False"
    using check_bucket_exists_outcomes [of missing_network "''no-such-bucket''" ?az] m
    by simp
  moreover have "azure_check_bucket_exists ?az missing_network ''no-such-bucket'' = Inr False"
    using check_bucket_exists_outcomes [of missing_network "''no-such-bucket''" ?az] m
    by simp
  moreover have "aws_check_bucket_exists denied_network ''b'' = Inr True"
    using check_bucket_exists_outcomes [of denied_network "''b''" ?az] d
    by simp
  moreover have "gcp_check_bucket_exists timeout_network ''b'' = Inr False"
    using check_bucket_exists_outcomes [of timeout_network "''b''" ?az] t
    by simp
  ultimately show ?thesis by (intro conjI)
qed

text \<open>
  Claim C7 asks that the native-client fallback maps access denied to true and not found
  to false, and that any residual unclassified failure yields false. The S3 and the GCS
  check do so. The Azure check does not: its handler for \<open>HttpResponseError\<close>, commented
  \<open>Container exists but no access\<close>, takes every error response for a denied access.
  When the HTTP probe times out and the native calls are answered with status 503, the S3
  and GCS checks return false and the Azure check returns true.
\<close>

theorem azure_check_bucket_exists_server_busy:
  "azure_check_bucket_exists \<lparr>account_name = ''acct'', blob_service_client = True\<rparr>
     server_busy_network ''no-such-bucket'' = Inr True \<and>
   aws_check_bucket_exists server_busy_network ''no-such-bucket'' = Inr False \<and>
   gcp_check_bucket_exists server_busy_network ''no-such-bucket'' = Inr False"
  by (simp add: azure_check_bucket_exists_def aws_check_bucket_exists_def
        gcp_check_bucket_exists_def server_busy_network_def try_except_def bind_exn_def)

section \<open>Properties of the orchestrator\<close>

lemma length_returned: "length (returned xs) \<le> length xs"
  by (induction xs rule: returned.induct) auto

lemma set_returned: "set (returned xs) = {r. Inr r \<in> set xs}"
  by (induction xs rule: returned.induct) auto

lemma distinct_providers_le_3:
  fixes ps :: "CloudProvider list"
  assumes "distinct ps"
  shows "length ps \<le> 3"
proof -
  have "set ps \<subseteq> {AWS_S3, GCP_GCS, AZURE_BLOB}"
    using CloudProvider.exhaust by auto
  then have "card (set ps) \<le> card {AWS_S3, GCP_GCS, AZURE_BLOB}"
    by (intro card_mono) auto
  then show ?thesis
    using assms by (simp add: distinct_card)
qed

lemma orchestrator_init_eq:
  "orchestrator_init aws gcp azure =
     [(AWS_S3, scan_bucket aws), (GCP_GCS, scan_bucket gcp), (AZURE_BLOB, scan_bucket azure)]"
  by (simp add: orchestrator_init_def)

lemma orchestrator_all_providers:
  "\<exists>rs. orchestrator_scan_bucket scanners name None = Inr rs \<and>
        set rs = {r. \<exists>p scanner. (p, scanner) \<in> set scanners \<and> scanner name = Inr r} \<and>
        length rs \<le> length scanners"
proof -
  let ?rs = "returned (map (\<lambda>(p, scanner). scanner name) scanners)"
  have "orchestrator_scan_bucket scanners name None = Inr ?rs"
    by (simp add: orchestrator_scan_bucket_def)
  moreover have "set ?rs = {r. \<exists>p scanner. (p, scanner) \<in> set scanners \<and> scanner name = Inr r}"
    by (force simp: set_returned image_iff)
  moreover have "length ?rs \<le> length scanners"
    using length_returned [of "map (\<lambda>(p, scanner). scanner name) scanners"] by simp
  ultimately show ?thesis by blast
qed

lemma orchestrator_init_singleton:
  "\<exists>r. orchestrator_scan_bucket (orchestrator_init aws gcp azure) name (Some p) = Inr [r]"
proof -
  obtain r1 r2 r3 where "scan_bucket aws name = Inr r1" "scan_bucket gcp name = Inr r2"
    "scan_bucket azure name = Inr r3"
    using scan_bucket_returns by meson
  then show ?thesis
    by (cases p) (simp_all add: orchestrator_init_eq orchestrator_scan_bucket_def bind_exn_def)
qed

text \<open>
  Claim C8. The orchestrator built by \<open>__init__\<close> never raises: for every bucket name and
  every choice of provider it returns a sequence of at most three results, and a sequence
  of exactly one result when a provider is given. For any registry of scanners, the call
  without a provider returns the results of exactly those scanners whose \<open>scan_bucket\<close>
  returned (a scanner that raised is left out), at most three when the registry is a dict
  over the three providers; the call with a provider that has no scanner returns the empty
  sequence, and with a provider whose scanner returns \<open>r\<close> it returns the singleton of \<open>r\<close>.
\<close>

theorem orchestrator_scan_bucket_never_raises:
  "(\<exists>rs. orchestrator_scan_bucket (orchestrator_init aws gcp azure) name provider = Inr rs \<and>
         length rs \<le> 3 \<and> (provider \<noteq> None \<longrightarrow> length rs = 1)) \<and>
   (\<exists>rs. orchestrator_scan_bucket scanners name None = Inr rs \<and>
         set rs = {r. \<exists>p scanner. (p, scanner) \<in> set scanners \<and> scanner name = Inr r} \<and>
         (distinct (map fst scanners) \<longrightarrow> length rs \<le> 3)) \<and>
   (map_of scanners p = None \<longrightarrow> orchestrator_scan_bucket scanners name (Some p) = Inr []) \<and>
   (\<forall>scanner r. map_of scanners p = Some scanner \<and> scanner name = Inr r \<longrightarrow>
      orchestrator_scan_bucket scanners name (Some p) = Inr [r])"
proof -
  have init: "\<exists>rs. orchestrator_scan_bucket (orchestrator_init aws gcp azure) name provider = Inr rs \<and>
         length rs \<le> 3 \<and> (provider \<noteq> None \<longrightarrow> length rs = 1)"
  proof (cases provider)
    case None
    obtain rs where "orchestrator_scan_bucket (orchestrator_init aws gcp azure) name None = Inr rs"
      "length rs \<le> length (orchestrator_init aws gcp azure)"
      using orchestrator_all_providers by blast
    with None show ?thesis by (auto simp: orchestrator_init_eq)
  next
    case (Some q)
    then show ?thesis
      using orchestrator_init_singleton [of aws gcp azure name q] by auto
  qed
  have all: "\<exists>rs. orchestrator_scan_bucket scanners name None = Inr rs \<and>
         set rs = {r. \<exists>p scanner. (p, scanner) \<in> set scanners \<and> scanner name = Inr r} \<and>
         (distinct (map fst scanners) \<longrightarrow> length rs \<le> 3)"
  proof -
    obtain rs where rs: "orchestrator_scan_bucket scanners name None = Inr rs"
      "set rs = {r. \<exists>p scanner. (p, scanner) \<in> set scanners \<and> scanner name = Inr r}"
      "length rs \<le> length scanners"
      using orchestrator_all_providers by blast
    have "length rs \<le> 3" if "distinct (map fst scanners)"
      using distinct_providers_le_3 [OF that] rs(3) by simp
    with rs show ?thesis by blast
  qed
  have unknown: "map_of scanners p = None \<longrightarrow>
      orchestrator_scan_bucket scanners name (Some p) = Inr []"
    by (simp add: orchestrator_scan_bucket_def)
  have known: "\<forall>scanner r. map_of scanners p = Some scanner \<and> scanner name = Inr r \<longrightarrow>
      orchestrator_scan_bucket scanners name (Some p) = Inr [r]"
    by (simp add: orchestrator_scan_bucket_def bind_exn_def)
  from init all unknown known show ?thesis by (intro conjI)
qed

theorem orchestrator_scan_bucket_never_raises_witness:
  "distinct (map fst partial_scanners) \<and>
   (\<exists>rs. orchestrator_scan_bucket partial_scanners ''no-such-bucket'' None = Inr rs \<and>
         length rs \<le> 3) \<and>
   orchestrator_scan_bucket partial_scanners ''no-such-bucket'' (Some AZURE_BLOB) = Inr [] \<and>
   (\<exists>rs. orchestrator_scan_bucket
           (orchestrator_init (s3_scanner timeout_network) listing_fails_scanner
              (s3_scanner missing_network)) ''no-such-bucket'' (Some GCP_GCS) = Inr rs \<and>
         length rs = 1)"
proof -
  have h1: "distinct (map fst partial_scanners)"
    by (simp add: partial_scanners_def)
  have h2: "map_of partial_scanners AZURE_BLOB = None"
    by (simp add: partial_scanners_def)
  have h3: "Some GCP_GCS \<noteq> None"
    by simp
  show ?thesis
    using h1 h2 h3
      orchestrator_scan_bucket_never_raises [of "s3_scanner timeout_network"
        listing_fails_scanner "s3_scanner missing_network" "''no-such-bucket''" "Some GCP_GCS"
        partial_scanners AZURE_BLOB]
    by blast
qed

section \<open>Properties of the sensitive-file detection\<close>

lemma is_sensitive_iff:
  "is_sensitive file \<longleftrightarrow> (\<exists>(c, pats) \<in> set SENSITIVE_PATTERNS. matches_category pats (lower file))"
  by (simp add: is_sensitive_def list_ex_iff)

lemma detect_in_categories_char:
  "detect_in_categories cats file S =
     (if file \<in> set S
      then (case cats of [] \<Rightarrow> S
            | (c, pats) # rest \<Rightarrow> if matches_category pats (lower file) then S @ [file] else S)
      else if \<exists>(c, pats) \<in> set cats. matches_category pats (lower file) then S @ [file] else S)"
proof (induction cats)
  case Nil
  show ?case by simp
next
  case (Cons cp cats)
  obtain c pats where cp: "cp = (c, pats)" by (cases cp)
  show ?case
    unfolding cp using Cons.IH by (auto simp: Let_def)
qed

lemma SENSITIVE_PATTERNS_Cons:
  "\<exists>pats rest. SENSITIVE_PATTERNS = (''credentials'', pats) # rest"
  by (simp add: SENSITIVE_PATTERNS_def)

lemma detect_step:
  "detect_in_categories SENSITIVE_PATTERNS file S =
     (if in_category ''credentials'' file \<or> (file \<notin> set S \<and> is_sensitive file)
      then S @ [file] else S)"
proof -
  obtain pats rest where sp: "SENSITIVE_PATTERNS = (''credentials'', pats) # rest"
    using SENSITIVE_PATTERNS_Cons by blast
  have fc: "in_category ''credentials'' file = matches_category pats (lower file)"
    by (simp add: in_category_def sp)
  have "in_category ''credentials'' file \<Longrightarrow> is_sensitive file"
    unfolding is_sensitive_iff fc sp by auto
  then show ?thesis
    unfolding detect_in_categories_char is_sensitive_iff [symmetric]
    by (auto simp: sp fc)
qed

lemma detect_foldl_subseq:
  "\<exists>ys. foldl (\<lambda>sensitive file. detect_in_categories SENSITIVE_PATTERNS file sensitive) S files
          = S @ ys \<and> subseq ys files \<and> (\<forall>y \<in> set ys. is_sensitive y)"
proof (induction files arbitrary: S)
  case Nil
  show ?case by simp
next
  case (Cons x xs)
  let ?step = "\<lambda>sensitive file. detect_in_categories SENSITIVE_PATTERNS file sensitive"
  show ?case
  proof (cases "?step S x = S")
    case True
    from Cons.IH [of S] obtain ys where "foldl ?step S xs = S @ ys" "subseq ys xs"
      "\<forall>y \<in> set ys. is_sensitive y" by blast
    with True show ?thesis by (auto intro: subseq_Cons')
  next
    case False
    then have step: "?step S x = S @ [x]" and sens: "is_sensitive x"
      by (auto simp: detect_step in_category_def is_sensitive_iff SENSITIVE_PATTERNS_def split: if_splits)
    from Cons.IH [of "S @ [x]"] obtain ys where "foldl ?step (S @ [x]) xs = (S @ [x]) @ ys"
      "subseq ys xs" "\<forall>y \<in> set ys. is_sensitive y" by blast
    with step sens have "foldl ?step S (x # xs) = S @ (x # ys) \<and> subseq (x # ys) (x # xs)
       \<and> (\<forall>y \<in> set (x # ys). is_sensitive y)"
      by simp
    then show ?thesis by blast
  qed
qed

lemma subseq_set_subset: "subseq xs ys \<Longrightarrow> set xs \<subseteq> set ys"
  by (auto elim: list_emb_set)

lemma subseq_keeps_distinct: "subseq xs ys \<Longrightarrow> distinct ys \<Longrightarrow> distinct xs"
  by (rule subseqs_distinctD [of xs ys]) simp_all

lemma detect_sensitive_files_subseq: "subseq (detect_sensitive_files files) files"
  using detect_foldl_subseq [of "[]" files] by (auto simp: detect_sensitive_files_def)

lemma base_detect_foldl:
  "foldl (\<lambda>sensitive file. if P file then sensitive @ [file] else sensitive) S files
     = S @ filter P files"
  by (induction files arbitrary: S) auto

lemma base_detect_sensitive_files_filter:
  "base_detect_sensitive_files files =
     filter (\<lambda>file. any_in base_sensitive_patterns (lower file)) files"
  by (simp add: base_detect_sensitive_files_def base_detect_foldl)

lemma scan_bucket_sensitive_subset:
  assumes "scan_bucket self name = Inr r" "bs_files_found r = Some fs"
    "bs_sensitive_files r = Some ss"
  shows "ss = base_detect_sensitive_files fs"
  using assms
  by (auto simp: scan_bucket_def try_except_def scan_bucket_body_def bind_exn_def Let_def
        split: sum.splits if_splits prod.splits)

lemma analyze_sensitive_files: "ca_sensitive_files (analyze b files) = detect_sensitive_files files"
  by (simp add: analyze_def Let_def detect_sensitive_files_def)

text \<open>
  Claim C6, as the code has it. The \<open>sensitive_files\<close> of \<open>analyze\<close> are drawn from the
  input list and keep the input's order (they form a subsequence of it), and they have no
  duplicates whenever the input list has none. In every result of \<open>scan_bucket\<close> in which
  \<open>files_found\<close> and \<open>sensitive_files\<close> are both present, the sensitive files are drawn from
  the files found, in their order.
\<close>

theorem sensitive_files_sublist:
  "set (ca_sensitive_files (analyze b files)) \<subseteq> set files \<and>
   subseq (ca_sensitive_files (analyze b files)) files \<and>
   (distinct files \<longrightarrow> distinct (ca_sensitive_files (analyze b files))) \<and>
   (\<forall>r fs ss. scan_bucket self name = Inr r \<and> bs_files_found r = Some fs \<and>
       bs_sensitive_files r = Some ss \<longrightarrow> set ss \<subseteq> set fs \<and> subseq ss fs)"
proof -
  have sub: "subseq (ca_sensitive_files (analyze b files)) files"
    by (simp add: analyze_sensitive_files detect_sensitive_files_subseq)
  have "set ss \<subseteq> set fs \<and> subseq ss fs"
    if "scan_bucket self name = Inr r" "bs_files_found r = Some fs"
       "bs_sensitive_files r = Some ss" for r fs ss
    using scan_bucket_sensitive_subset [OF that]
    by (simp add: base_detect_sensitive_files_filter subseq_set_subset)
  moreover have "set (ca_sensitive_files (analyze b files)) \<subseteq> set files"
    using sub by (rule subseq_set_subset)
  moreover have "distinct (ca_sensitive_files (analyze b files))" if "distinct files"
    using sub that by (rule subseq_keeps_distinct)
  ultimately show ?thesis
    using sub by blast
qed

theorem sensitive_files_sublist_witness:
  "distinct [''config.json'', ''.env'', ''passwords.txt'', ''id_rsa'', ''backup.sql''] \<and>
   distinct (ca_sensitive_files (analyze ''test-bucket''
     [''config.json'', ''.env'', ''passwords.txt'', ''id_rsa'', ''backup.sql''])) \<and>
   (\<exists>r. scan_bucket (s3_scanner denied_network) ''b'' = Inr r \<and>
        bs_files_found r = Some [''.env'', ''index.html''] \<and>
        bs_sensitive_files r = Some [''.env''] \<and>
        set [''.env''] \<subseteq> set [''.env'', ''index.html''])"
proof -
  let ?files = "[''config.json'', ''.env'', ''passwords.txt'', ''id_rsa'', ''backup.sql'']"
  let ?r = "\<lparr> bs_provider = AWS_S3, bs_bucket_name = ''b'',
             bs_exists = True, bs_is_accessible = True, bs_access_level = PUBLIC_READ,
             bs_permissions = [''list''], bs_url = ''https://b.s3.amazonaws.com'',
             bs_files_found = Some [''.env'', ''index.html''],
             bs_sensitive_files = Some [''.env''],
             bs_error = None, bs_metadata = None \<rparr>"
  have h1: "distinct ?files"
    by simp
  have d: "base_detect_sensitive_files [''.env'', ''index.html''] = [''.env'']"
    by code_simp
  have h2: "scan_bucket (s3_scanner denied_network) ''b'' = Inr ?r"
    by (simp add: scan_bucket_def scan_bucket_body_def s3_scanner_def denied_network_def
          aws_check_bucket_exists_def try_except_def bind_exn_def d)
  have h3: "bs_files_found ?r = Some [''.env'', ''index.html''] \<and>
            bs_sensitive_files ?r = Some [''.env'']"
    by simp
  from sensitive_files_sublist [of "''test-bucket''" ?files "s3_scanner denied_network" "''b''"]
  have "distinct (ca_sensitive_files (analyze ''test-bucket'' ?files))"
    and "set [''.env''] \<subseteq> set [''.env'', ''index.html'']"
    using h1 h2 h3 by blast+
  with h1 h2 h3 show ?thesis by blast
qed

text \<open>
  Claim C6 as stated asks for no duplicates on every input list. A list that names the
  same object twice is analysed to a list with the duplicate.
\<close>

theorem sensitive_files_duplicates_counterexample:
  "\<not> distinct (ca_sensitive_files (analyze ''b'' [''.env'', ''.env'']))"
proof -
  have "ca_sensitive_files (analyze ''b'' [''.env'', ''.env'']) = [''.env'', ''.env'']"
    by code_simp
  then show ?thesis by simp
qed

section \<open>Properties of the findings\<close>

lemma map_of_append_to:
  "map_of (append_to c f C) c' =
     (if c' = c then Some ((case map_of C c of None \<Rightarrow> [] | Some fs \<Rightarrow> fs) @ [f])
      else map_of C c')"
  by (simp add: append_to_def update_conv)

lemma distinct_append_to:
  "distinct (map fst C) \<Longrightarrow> distinct (map fst (append_to c f C))"
  by (simp add: append_to_def distinct_update)

lemma distinct_categorize_file:
  "distinct (map fst C) \<Longrightarrow> distinct (map fst (categorize_file cats f C))"
  by (induction cats f C rule: categorize_file.induct) (auto simp: distinct_append_to)

lemma map_of_categorize_file:
  assumes "distinct (map fst cats)"
  shows "map_of (categorize_file cats f C) c =
     (case map_of cats c of
        Some pats \<Rightarrow>
          if matches_category pats (lower f)
          then Some ((case map_of C c of None \<Rightarrow> [] | Some fs \<Rightarrow> fs) @ [f])
          else map_of C c
      | None \<Rightarrow> map_of C c)"
  using assms
proof (induction cats arbitrary: C)
  case Nil
  show ?case by simp
next
  case (Cons cp cats)
  obtain cat pats where cp: "cp = (cat, pats)" by (cases cp)
  from Cons.prems have d: "distinct (map fst cats)" and new: "map_of cats cat = None"
    by (auto simp: cp map_of_eq_None_iff)
  show ?case
    unfolding cp using new
    by (auto simp: Cons.IH [OF d] map_of_append_to split: option.splits)
qed

lemma distinct_SENSITIVE_PATTERNS: "distinct (map fst SENSITIVE_PATTERNS)"
  by (simp add: SENSITIVE_PATTERNS_def)

lemma map_of_categorize_step:
  "map_of (categorize_file SENSITIVE_PATTERNS f C) c =
     (if in_category c f
      then Some ((case map_of C c of None \<Rightarrow> [] | Some fs \<Rightarrow> fs) @ [f])
      else map_of C c)"
  by (simp add: map_of_categorize_file [OF distinct_SENSITIVE_PATTERNS] in_category_def
        split: option.splits)

lemma map_of_categorize_foldl:
  "map_of (foldl (\<lambda>categorized file. categorize_file SENSITIVE_PATTERNS file categorized) C fs) c =
     (if filter (in_category c) fs = [] then map_of C c
      else Some ((case map_of C c of None \<Rightarrow> [] | Some xs \<Rightarrow> xs) @ filter (in_category c) fs))"
  by (induction fs arbitrary: C) (auto simp: map_of_categorize_step)

lemma distinct_categorize_foldl:
  "distinct (map fst C) \<Longrightarrow>
   distinct (map fst (foldl (\<lambda>categorized file.
                               categorize_file SENSITIVE_PATTERNS file categorized) C fs))"
  by (induction fs arbitrary: C) (auto simp: distinct_categorize_file)

lemma map_of_categorize:
  "map_of (categorize sens) c =
     (if filter (in_category c) sens = [] then None else Some (filter (in_category c) sens))"
  by (simp add: categorize_def map_of_categorize_foldl)

lemma distinct_categorize: "distinct (map fst (categorize sens))"
  by (simp add: categorize_def distinct_categorize_foldl)

lemma categorize_entry:
  "(c, fl) \<in> set (categorize sens) \<longleftrightarrow>
     fl = filter (in_category c) sens \<and> fl \<noteq> []"
proof -
  have "(c, fl) \<in> set (categorize sens) \<longleftrightarrow> map_of (categorize sens) c = Some fl"
    using distinct_categorize by (metis map_of_eq_Some_iff)
  then show ?thesis
    by (auto simp: map_of_categorize)
qed


lemma detect_foldl_complete:
  assumes "f \<in> set S \<or> (f \<in> set files \<and> is_sensitive f)"
  shows "f \<in> set (foldl (\<lambda>sensitive file.
                            detect_in_categories SENSITIVE_PATTERNS file sensitive) S files)"
  using assms
proof (induction files arbitrary: S)
  case Nil
  then show ?case by simp
next
  case (Cons x xs)
  have "f \<in> set (detect_in_categories SENSITIVE_PATTERNS x S) \<or> (f \<in> set xs \<and> is_sensitive f)"
    using Cons.prems by (auto simp: detect_step)
  then show ?case
    using Cons.IH by simp
qed

lemma analyze_findings:
  "ca_findings (analyze b files) = generate_findings files (detect_sensitive_files files)"
  by (simp add: analyze_def Let_def generate_findings_def categorize_def
        detect_sensitive_files_def)

lemma finding_of_entry:
  "fd \<in> set (generate_findings files sens) \<longleftrightarrow>
     (\<exists>c. filter (in_category c) sens \<noteq> [] \<and>
          fd = \<lparr> f_category = c, f_severity = get_category_severity c,
                 f_count = len (filter (in_category c) sens),
                 f_files = take 10 (filter (in_category c) sens),
                 f_description = get_category_description c \<rparr>)"
  (is "?L \<longleftrightarrow> ?R")
proof
  assume ?L
  then obtain c fl where "(c, fl) \<in> set (categorize sens)"
    and "fd = \<lparr> f_category = c, f_severity = get_category_severity c,
                 f_count = len fl, f_files = take 10 fl,
                 f_description = get_category_description c \<rparr>"
    by (auto simp: generate_findings_def)
  then show ?R
    by (auto simp: categorize_entry)
next
  assume ?R
  then obtain c where c: "filter (in_category c) sens \<noteq> []"
    and fd: "fd = \<lparr> f_category = c, f_severity = get_category_severity c,
                 f_count = len (filter (in_category c) sens),
                 f_files = take 10 (filter (in_category c) sens),
                 f_description = get_category_description c \<rparr>"
    by blast
  from c have "(c, filter (in_category c) sens) \<in> set (categorize sens)"
    by (simp add: categorize_entry)
  then show ?L
    unfolding generate_findings_def fd by force
qed

lemma map_category_findings:
  "map f_category (generate_findings files sens) = map fst (categorize sens)"
  by (simp add: generate_findings_def case_prod_unfold comp_def)

text \<open>
  Claim C4, as the code has it. The findings hold one entry per category that some
  sensitive file matches; the entry of a category counts every sensitive file that matches
  the pattern table of that category (not only the files whose first matching category it
  is) and samples the first ten of them, so a file that matches several categories is
  counted in the entry of each. A file of the input that matches any category at all is in
  the flat list \<open>sensitive_files\<close>.
\<close>

theorem findings_group_by_category:
  "(\<forall>fd \<in> set (ca_findings (analyze b files)).
      f_count fd =
        len (filter (in_category (f_category fd)) (ca_sensitive_files (analyze b files))) \<and>
      f_files fd =
        take 10 (filter (in_category (f_category fd)) (ca_sensitive_files (analyze b files))) \<and>
      1 \<le> f_count fd) \<and>
   (\<forall>c. (\<exists>f \<in> set (ca_sensitive_files (analyze b files)). in_category c f) \<longrightarrow>
      (\<exists>fd \<in> set (ca_findings (analyze b files)). f_category fd = c)) \<and>
   distinct (map f_category (ca_findings (analyze b files))) \<and>
   (\<forall>f \<in> set files. is_sensitive f \<longrightarrow> f \<in> set (ca_sensitive_files (analyze b files)))"
proof -
  let ?sens = "detect_sensitive_files files"
  have entries: "f_count fd = len (filter (in_category (f_category fd)) ?sens) \<and>
      f_files fd = take 10 (filter (in_category (f_category fd)) ?sens) \<and> 1 \<le> f_count fd"
    if "fd \<in> set (generate_findings files ?sens)" for fd
  proof -
    from that obtain c where c: "filter (in_category c) ?sens \<noteq> []"
      and fd: "fd = \<lparr> f_category = c, f_severity = get_category_severity c,
                 f_count = len (filter (in_category c) ?sens),
                 f_files = take 10 (filter (in_category c) ?sens),
                 f_description = get_category_description c \<rparr>"
      unfolding finding_of_entry by blast
    from c have "1 \<le> len (filter (in_category c) ?sens)"
      by (cases "filter (in_category c) ?sens") (simp_all add: len_def)
    then show ?thesis by (simp add: fd)
  qed
  have every: "\<exists>fd \<in> set (generate_findings files ?sens). f_category fd = c"
    if "\<exists>f \<in> set ?sens. in_category c f" for c
  proof -
    from that have "filter (in_category c) ?sens \<noteq> []"
      by (auto simp: filter_empty_conv)
    then have "\<lparr> f_category = c, f_severity = get_category_severity c,
                 f_count = len (filter (in_category c) ?sens),
                 f_files = take 10 (filter (in_category c) ?sens),
                 f_description = get_category_description c \<rparr>
               \<in> set (generate_findings files ?sens)"
      unfolding finding_of_entry by blast
    then show ?thesis by force
  qed
  have once: "distinct (map f_category (generate_findings files ?sens))"
    by (simp add: map_category_findings distinct_categorize)
  have flat: "f \<in> set ?sens" if "f \<in> set files" "is_sensitive f" for f
    unfolding detect_sensitive_files_def using that by (intro detect_foldl_complete) simp
  show ?thesis
    unfolding analyze_findings analyze_sensitive_files
    using entries every once flat by blast
qed

theorem findings_group_by_category_witness:
  "''secret.key'' \<in> set [''secret.key''] \<and> is_sensitive ''secret.key'' \<and>
   ''secret.key'' \<in> set (ca_sensitive_files (analyze ''b'' [''secret.key'']))"
proof -
  have h1: "''secret.key'' \<in> set [''secret.key'']"
    by simp
  have h2: "is_sensitive ''secret.key''"
    by code_simp
  show ?thesis
    using h1 h2 findings_group_by_category [of "''b''" "[''secret.key'']"] by blast
qed

text \<open>
  Claim C4 as stated asks that no file is counted in the entries of two categories. The
  single file \<open>secret.key\<close> matches the tables of \<open>credentials\<close> and of \<open>private_keys\<close>, and it
  is listed in the findings entry of both.
\<close>

theorem findings_two_categories_counterexample:
  "map f_category (ca_findings (analyze ''b'' [''secret.key''])) =
     [''credentials'', ''private_keys''] \<and>
   map f_files (ca_findings (analyze ''b'' [''secret.key''])) =
     [[''secret.key''], [''secret.key'']]"
  by code_simp

section \<open>Properties of the float operations\<close>

lemma round_half_even_bounds:
  "\<lfloor>x\<rfloor> \<le> round_half_even x \<and> round_half_even x \<le> \<lfloor>x\<rfloor> + 1"
  by (simp add: round_half_even_def Let_def)

lemma round_half_even_of_int [simp]: "round_half_even (of_int k) = k"
  by (simp add: round_half_even_def Let_def)

lemma round_half_even_mono:
  assumes "x \<le> y"
  shows "round_half_even x \<le> round_half_even y"
proof (cases "\<lfloor>x\<rfloor> = \<lfloor>y\<rfloor>")
  case True
  have "x - of_int \<lfloor>x\<rfloor> \<le> y - of_int \<lfloor>x\<rfloor>"
    using assms by simp
  then show ?thesis
    using True by (auto simp: round_half_even_def Let_def)
next
  case False
  then have "\<lfloor>x\<rfloor> + 1 \<le> \<lfloor>y\<rfloor>"
    using floor_mono [OF assms] by linarith
  then show ?thesis
    using round_half_even_bounds [of x] round_half_even_bounds [of y] by linarith
qed

lemma round_half_even_ge: "of_int k \<le> x \<Longrightarrow> k \<le> round_half_even x"
  using round_half_even_mono [of "of_int k" x] by simp

lemma round_half_even_le: "x \<le> of_int k \<Longrightarrow> round_half_even x \<le> k"
  using round_half_even_mono [of x "of_int k"] by simp

lemma bitlen_bounds_rat:
  assumes "0 < a"
  shows "(2::rat) powi (bitlen a - 1) \<le> of_int a \<and> (of_int a :: rat) < 2 powi (bitlen a)"
proof -
  have pos: "0 \<le> bitlen a - 1"
    using assms bitlen_eq_zero_iff [of a] bitlen_nonneg [of a] by linarith
  have "(2::int) ^ nat (bitlen a - 1) \<le> a" "a < 2 ^ nat (bitlen a)"
    using bitlen_bounds [OF assms] by auto
  then have "(of_int (2 ^ nat (bitlen a - 1)) :: rat) \<le> of_int a"
    "(of_int a :: rat) < of_int (2 ^ nat (bitlen a))"
    by (simp_all only: of_int_le_iff of_int_less_iff)
  then show ?thesis
    using pos by (simp add: power_int_nonneg_exp)
qed

lemma ilog2_bounds:
  assumes "0 < x"
  shows "2 powi (ilog2 x) \<le> x \<and> x < 2 powi (ilog2 x + 1)"
proof -
  obtain a b where q: "quotient_of x = (a, b)"
    by (cases "quotient_of x")
  have b: "0 < b" using q by (rule quotient_of_denom_pos)
  have x: "x = of_int a / of_int b" using q by (rule quotient_of_div)
  have a: "0 < a"
    using assms b unfolding x by (simp add: zero_less_divide_iff)
  let ?d = "bitlen a - bitlen b"
  note A = bitlen_bounds_rat [OF a]
  note B = bitlen_bounds_rat [OF b]
  have bpos: "(0::rat) < of_int b" using b by simp
  have "x < 2 powi (bitlen a) / 2 powi (bitlen b - 1)"
    unfolding x using A B bpos a
    by (intro frac_less) auto
  also have "\<dots> = 2 powi (?d + 1)"
    by (simp add: power_int_diff [symmetric] algebra_simps)
  finally have up: "x < 2 powi (?d + 1)" .
  have "2 powi (bitlen a - 1) / 2 powi (bitlen b) \<le> x"
    unfolding x using A B bpos a
    by (intro frac_le) auto
  moreover have "2 powi (bitlen a - 1) / 2 powi (bitlen b) = (2::rat) powi (?d - 1)"
    by (simp add: power_int_diff [symmetric] algebra_simps)
  ultimately have low: "2 powi (?d - 1) \<le> x" by simp
  show ?thesis
  proof (cases "2 powi ?d \<le> x")
    case True
    then have "ilog2 x = ?d" by (simp add: ilog2_def q)
    with True up show ?thesis by simp
  next
    case False
    then have "ilog2 x = ?d - 1" by (simp add: ilog2_def q)
    with False low show ?thesis by simp
  qed
qed


lemma ilog2_mono:
  assumes "0 < x" "x \<le> y"
  shows "ilog2 x \<le> ilog2 y"
proof (rule ccontr)
  assume "\<not> ilog2 x \<le> ilog2 y"
  then have "ilog2 y + 1 \<le> ilog2 x" by simp
  then have "(2::rat) powi (ilog2 y + 1) \<le> 2 powi (ilog2 x)"
    by (intro power_int_increasing) simp_all
  moreover have "2 powi (ilog2 x) \<le> x" "y < 2 powi (ilog2 y + 1)"
    using ilog2_bounds [of x] ilog2_bounds [of y] assms by simp_all
  ultimately show False using assms by linarith
qed

lemma round_double_pos:
  "0 < x \<Longrightarrow>
   round_double x = of_int (round_half_even (x / 2 powi (ilog2 x - 52))) * 2 powi (ilog2 x - 52)"
  by (simp add: round_double_def Let_def)

lemma round_scaled_range:
  fixes x :: rat
  assumes "0 \<le> k" "2 powi (e + k) \<le> x" "x < 2 powi (e + k + 1)"
  shows "(2::rat) powi (e + k) \<le> of_int (round_half_even (x / 2 powi e)) * 2 powi e \<and>
         (of_int (round_half_even (x / 2 powi e)) :: rat) * 2 powi e \<le> 2 powi (e + k + 1)"
proof -
  let ?m = "round_half_even (x / 2 powi e)"
  have p: "(0::rat) < 2 powi e" by simp
  have split: "(2::rat) powi (e + k) = 2 powi k * 2 powi e"
    "(2::rat) powi (e + k + 1) = 2 powi (k + 1) * 2 powi e"
    by (simp_all add: power_int_add mult.commute)
  have nat: "(2::rat) powi k = of_int (2 ^ nat k)" "(2::rat) powi (k + 1) = of_int (2 ^ nat (k + 1))"
    using assms(1) by (simp_all add: power_int_nonneg_exp)
  have "2 powi k * 2 powi e \<le> x" "x \<le> 2 powi (k + 1) * 2 powi e"
    using assms(2,3) unfolding split by simp_all
  then have "2 powi k \<le> x / 2 powi e" "x / 2 powi e \<le> 2 powi (k + 1)"
    using p by (simp_all add: pos_le_divide_eq pos_divide_le_eq)
  then have "2 ^ nat k \<le> ?m" "?m \<le> 2 ^ nat (k + 1)"
    unfolding nat by (simp_all only: round_half_even_ge round_half_even_le)
  then have "(of_int (2 ^ nat k) :: rat) \<le> of_int ?m" "(of_int ?m :: rat) \<le> of_int (2 ^ nat (k + 1))"
    by (simp_all only: of_int_le_iff)
  then have "(2::rat) powi k * 2 powi e \<le> of_int ?m * 2 powi e"
    "(of_int ?m :: rat) * 2 powi e \<le> 2 powi (k + 1) * 2 powi e"
    unfolding nat [symmetric] using p by (simp_all only: mult_le_cancel_right_pos)
  then show ?thesis
    unfolding split by simp
qed

lemma round_double_range:
  assumes "0 < x"
  shows "2 powi (ilog2 x) \<le> round_double x \<and> round_double x \<le> 2 powi (ilog2 x + 1)"
proof -
  have e: "ilog2 x - 52 + 52 = ilog2 x" by simp
  have "2 powi (ilog2 x - 52 + 52) \<le> x" "x < 2 powi (ilog2 x - 52 + 52 + 1)"
    unfolding e using ilog2_bounds [OF assms] by simp_all
  from round_scaled_range [OF _ this] show ?thesis
    unfolding e round_double_pos [OF assms] by simp
qed

lemma round_double_nonneg: "0 \<le> x \<Longrightarrow> 0 \<le> round_double x"
proof (cases "x = 0")
  case True
  then show ?thesis by (simp add: round_double_def)
next
  case False
  assume "0 \<le> x"
  with False have "0 < x" by simp
  from round_double_range [OF this] have "2 powi (ilog2 x) \<le> round_double x" by simp
  moreover have "(0::rat) \<le> 2 powi (ilog2 x)" by simp
  ultimately show ?thesis by linarith
qed

lemma round_double_mono:
  assumes "0 \<le> x" "x \<le> y"
  shows "round_double x \<le> round_double y"
proof (cases "x = 0")
  case True
  then show ?thesis
    using round_double_nonneg [of y] assms by (simp add: round_double_def)
next
  case False
  with assms have x: "0 < x" and y: "0 < y" by simp_all
  show ?thesis
  proof (cases "ilog2 x = ilog2 y")
    case True
    let ?e = "ilog2 y - 52"
    have "x / 2 powi ?e \<le> y / 2 powi ?e"
      using assms by (simp add: divide_right_mono)
    then have "round_half_even (x / 2 powi ?e) \<le> round_half_even (y / 2 powi ?e)"
      by (rule round_half_even_mono)
    then have "(of_int (round_half_even (x / 2 powi ?e)) :: rat) * 2 powi ?e
               \<le> of_int (round_half_even (y / 2 powi ?e)) * 2 powi ?e"
      by (intro mult_right_mono) simp_all
    then show ?thesis
      by (simp add: round_double_pos [OF x] round_double_pos [OF y] True)
  next
    case False
    then have "ilog2 x + 1 \<le> ilog2 y"
      using ilog2_mono [OF x assms(2)] by simp
    then have "(2::rat) powi (ilog2 x + 1) \<le> 2 powi (ilog2 y)"
      by (intro power_int_increasing) simp_all
    then show ?thesis
      using round_double_range [OF x] round_double_range [OF y] by linarith
  qed
qed

lemma ratio_term_mono:
  assumes "0 \<le> s" "s \<le> s'" "0 < n"
  shows "py_int (py_fmul (py_truediv s n) 50) \<le> py_int (py_fmul (py_truediv s' n) 50)"
proof -
  have q: "(0::rat) \<le> of_int s / of_int n" "(of_int s :: rat) / of_int n \<le> of_int s' / of_int n"
    using assms by (simp_all add: divide_right_mono)
  then have d: "0 \<le> py_truediv s n" "py_truediv s n \<le> py_truediv s' n"
    unfolding py_truediv_def by (simp_all add: round_double_nonneg round_double_mono)
  then have "0 \<le> py_truediv s n * 50" "py_truediv s n * 50 \<le> py_truediv s' n * 50"
    by simp_all
  then have m: "0 \<le> py_fmul (py_truediv s n) 50"
    "py_fmul (py_truediv s n) 50 \<le> py_fmul (py_truediv s' n) 50"
    unfolding py_fmul_def by (simp_all add: round_double_nonneg round_double_mono)
  then show ?thesis
    by (simp add: py_int_def floor_mono)
qed

lemma ratio_term_nonneg:
  assumes "0 \<le> s" "0 < n"
  shows "0 \<le> py_int (py_fmul (py_truediv s n) 50)"
proof -
  have "(0::rat) \<le> of_int s / of_int n"
    using assms by simp
  then have "0 \<le> py_truediv s n * 50"
    unfolding py_truediv_def by (simp add: round_double_nonneg)
  then have "0 \<le> py_fmul (py_truediv s n) 50"
    unfolding py_fmul_def by (rule round_double_nonneg)
  then show ?thesis
    by (simp add: py_int_def)
qed

lemma round_half_even_error: "\<bar>of_int (round_half_even x) - x\<bar> \<le> 1 / 2"
proof -
  have "0 \<le> x - of_int \<lfloor>x\<rfloor>" "x - of_int \<lfloor>x\<rfloor> < 1"
    by linarith+
  then show ?thesis
    by (auto simp: round_half_even_def Let_def abs_le_iff)
qed

lemma round_double_error:
  assumes "0 < x"
  shows "\<bar>round_double x - x\<bar> \<le> 2 powi (ilog2 x - 53)"
proof -
  let ?e = "ilog2 x - 52"
  let ?m = "round_half_even (x / 2 powi ?e)"
  have p: "(0::rat) < 2 powi ?e" by simp
  have "round_double x - x = (of_int ?m - x / 2 powi ?e) * 2 powi ?e"
    using p by (simp add: round_double_pos [OF assms] algebra_simps)
  then have "\<bar>round_double x - x\<bar> = \<bar>of_int ?m - x / 2 powi ?e\<bar> * 2 powi ?e"
    using p by (simp add: abs_mult)
  also have "\<dots> \<le> 1 / 2 * 2 powi ?e"
    using round_half_even_error [of "x / 2 powi ?e"] p by (intro mult_right_mono) simp_all
  also have "1 / 2 * (2::rat) powi ?e = 2 powi (ilog2 x - 53)"
  proof -
    have "(2::rat) powi ?e = 2 powi (ilog2 x - 53 + 1)" by simp
    also have "\<dots> = 2 powi (ilog2 x - 53) * 2" by (subst power_int_add) simp_all
    finally show ?thesis by simp
  qed
  finally show ?thesis .
qed

lemma ilog2_less:
  assumes "0 < x" "x < 2 powi k"
  shows "ilog2 x < k"
proof (rule ccontr)
  assume "\<not> ilog2 x < k"
  then have "(2::rat) powi k \<le> 2 powi (ilog2 x)"
    by (intro power_int_increasing) simp_all
  with ilog2_bounds [OF assms(1)] assms(2) show False by linarith
qed

lemma round_double_error_below:
  assumes "0 < x" "x < 2 powi k"
  shows "\<bar>round_double x - x\<bar> \<le> 2 powi (k - 54)"
proof -
  have "ilog2 x - 53 \<le> k - 54"
    using ilog2_less [OF assms] by simp
  then have "(2::rat) powi (ilog2 x - 53) \<le> 2 powi (k - 54)"
    by (intro power_int_increasing) simp_all
  with round_double_error [OF assms(1)] show ?thesis by linarith
qed

lemma round_double_pos_pos: "0 < x \<Longrightarrow> 0 < round_double x"
  using round_double_range [of x] zero_less_power_int [of "2::rat" "ilog2 x"] by linarith

lemma round_double_one: "round_double 1 = 1"
  by code_simp


lemma ratio_term_enclosure:
  assumes "0 < s" "s \<le> n" "n \<le> 2 ^ 46"
  shows "(50 * s) div n - 1 \<le> py_int (py_fmul (py_truediv s n) 50) \<and>
         py_int (py_fmul (py_truediv s n) 50) \<le> (50 * s) div n"
proof -
  define q :: rat where "q = of_int s / of_int n"
  define x where "x = round_double q"
  define y where "y = round_double (x * 50)"
  define t where "t = (50 * s) div n"
  define r where "r = (50 * s) mod n"
  define a :: rat where "a = 2 powi (- 53)"
  define b :: rat where "b = 2 powi (- 48)"
  define c :: rat where "c = 2 powi (- 46)"
  have n: "0 < n" using assms by linarith
  have q: "0 < q" "q \<le> 1"
    using assms n by (simp_all add: q_def)
  have x: "0 < x" "x \<le> 1"
    using q round_double_pos_pos [of q] round_double_mono [of q 1]
    by (simp_all add: round_double_one x_def)
  have "q < 2 powi 1" using q by simp
  from round_double_error_below [OF q(1) this]
  have e1: "\<bar>x - q\<bar> \<le> a" by (simp add: x_def a_def)
  have p: "0 < x * 50" "x * 50 < 2 powi 6"
    using x by simp_all
  from round_double_error_below [OF p]
  have e2: "\<bar>y - x * 50\<bar> \<le> b" by (simp add: y_def b_def)
  have small: "b + 50 * a < c" and tiny: "c \<le> 1"
    by (simp_all add: a_def b_def c_def power_int_minus)
  have close: "\<bar>y - 50 * q\<bar> < c"
    using e1 e2 small by linarith
  have inv_n: "c \<le> 1 / of_int n"
  proof -
    have "(of_int n :: rat) \<le> of_int (2 ^ 46)"
      using assms(3) by (simp only: of_int_le_iff)
    then have "(of_int n :: rat) \<le> 2 ^ 46" by simp
    then have "1 / (2 ^ 46 :: rat) \<le> 1 / of_int n"
      using n by (intro divide_left_mono) simp_all
    moreover have "c = 1 / 2 ^ 46"
      by (simp only: c_def power_int_minus_divide power_int_numeral)
    ultimately show ?thesis by (simp only:)
  qed
  have split: "50 * s = t * n + r"
    by (simp add: t_def r_def)
  have rem: "0 \<le> r" "r \<le> n - 1"
    using n by (simp_all add: r_def pos_mod_bound zle_diff1_eq)
  have "(50 * of_int s :: rat) = of_int (50 * s)" by simp
  also have "\<dots> = of_int t * of_int n + of_int r"
    by (subst split) (simp only: of_int_add of_int_mult)
  finally have "50 * q = of_int t + of_int r / of_int n"
    using n by (simp add: q_def field_simps)
  moreover have "0 \<le> (of_int r :: rat) / of_int n"
    using rem(1) n by simp
  moreover have "(of_int r :: rat) / of_int n \<le> 1 - 1 / of_int n"
  proof -
    have "(of_int r :: rat) \<le> of_int (n - 1)"
      using rem(2) by (simp only: of_int_le_iff)
    then have "(of_int r :: rat) / of_int n \<le> of_int (n - 1) / of_int n"
      using n by (intro divide_right_mono) simp_all
    also have "(of_int (n - 1) :: rat) / of_int n = 1 - 1 / of_int n"
      using n by (simp add: field_simps)
    finally show ?thesis .
  qed
  ultimately have fl: "of_int t \<le> 50 * q" "50 * q \<le> of_int t + 1 - 1 / of_int n"
    by linarith+
  have low: "of_int (t - 1) \<le> y"
    using close fl(1) tiny by simp
  have up: "y < of_int (t + 1)"
    using close fl(2) inv_n by simp
  have ynn: "0 \<le> y"
    using p(1) round_double_nonneg [of "x * 50"] by (simp add: y_def)
  have "py_int (py_fmul (py_truediv s n) 50) = \<lfloor>y\<rfloor>"
    using ynn by (simp add: py_int_def py_fmul_def py_truediv_def y_def x_def q_def)
  moreover have "t - 1 \<le> \<lfloor>y\<rfloor>"
    using low by (simp only: le_floor_iff)
  moreover have "\<lfloor>y\<rfloor> < t + 1"
    using up by (simp only: floor_less_iff)
  ultimately show ?thesis
    unfolding t_def by linarith
qed

section \<open>Properties of the risk score\<close>

lemma mset_append_new:
  assumes "mset S \<subseteq># mset T" "g \<notin> set S" "g \<in> set T"
  shows "mset (S @ [g]) \<subseteq># mset T"
proof -
  have "count (mset (S @ [g])) a \<le> count (mset T) a" for a
  proof (cases "a = g")
    case True
    have "count (mset S) g = 0" using assms(2) by (simp add: count_eq_zero_iff)
    moreover have "0 < count (mset T) g" using assms(3) by (simp add: count_greater_zero_iff)
    moreover have "count (mset (S @ [g])) g = Suc (count (mset S) g)" by simp
    ultimately show ?thesis unfolding True by linarith
  next
    case False
    then show ?thesis using assms(1) by (simp add: mset_subset_eq_count)
  qed
  then show ?thesis by (simp add: mset_subset_eqI)
qed

lemma detect_step_invariant:
  assumes "mset S \<subseteq># mset T" "set T \<subseteq> insert g (set S)" "g \<in> set T"
  shows "mset (detect_in_categories SENSITIVE_PATTERNS y S)
           \<subseteq># mset (detect_in_categories SENSITIVE_PATTERNS y T) \<and>
         set (detect_in_categories SENSITIVE_PATTERNS y T)
           \<subseteq> insert g (set (detect_in_categories SENSITIVE_PATTERNS y S)) \<and>
         g \<in> set (detect_in_categories SENSITIVE_PATTERNS y T)"
proof -
  have sub: "set S \<subseteq> set T"
    using assms(1) set_mset_mono by fastforce
  show ?thesis
  proof (cases "y = g")
    case True
    show ?thesis
      using assms sub mset_append_new [OF assms(1) _ assms(3)]
      unfolding True detect_step by auto
  next
    case False
    then have "y \<in> set S \<longleftrightarrow> y \<in> set T"
      using sub assms(2) by auto
    then show ?thesis
      using assms unfolding detect_step by auto
  qed
qed

lemma detect_foldl_invariant:
  assumes "mset S \<subseteq># mset T" "set T \<subseteq> insert g (set S)" "g \<in> set T"
  shows "mset (foldl (\<lambda>sensitive file. detect_in_categories SENSITIVE_PATTERNS file sensitive) S ys)
         \<subseteq># mset (foldl (\<lambda>sensitive file.
                               detect_in_categories SENSITIVE_PATTERNS file sensitive) T ys)"
  using assms
proof (induction ys arbitrary: S T)
  case Nil
  then show ?case by simp
next
  case (Cons y ys)
  from detect_step_invariant [OF Cons.prems, of y] show ?case
    by (simp add: Cons.IH)
qed

lemma detect_replace:
  assumes "\<not> is_sensitive f" "is_sensitive g"
  shows "mset (detect_sensitive_files (xs @ f # ys)) \<subseteq># mset (detect_sensitive_files (xs @ g # ys))"
proof -
  let ?step = "\<lambda>sensitive file. detect_in_categories SENSITIVE_PATTERNS file sensitive"
  let ?S = "foldl ?step [] xs"
  have cred: "in_category ''credentials'' h \<Longrightarrow> is_sensitive h" for h
    by (auto simp: in_category_def is_sensitive_iff SENSITIVE_PATTERNS_def)
  have f: "?step ?S f = ?S"
    using assms(1) cred [of f] by (auto simp: detect_step)
  have g: "mset ?S \<subseteq># mset (?step ?S g) \<and> set (?step ?S g) \<subseteq> insert g (set ?S) \<and>
           g \<in> set (?step ?S g)"
    using assms(2) by (auto simp: detect_step)
  have "mset (foldl ?step ?S ys) \<subseteq># mset (foldl ?step (?step ?S g) ys)"
    using g by (intro detect_foldl_invariant [of _ _ g]) simp_all
  then show ?thesis
    by (simp add: detect_sensitive_files_def f)
qed

lemma bonus_foldl:
  "foldl (\<lambda>score file. if P file then score + 5 else score) (score :: int) fs
     = score + 5 * len (filter P fs)"
  by (induction fs arbitrary: score) (auto simp: len_def)

lemma calculate_risk_score_formula:
  assumes "files \<noteq> []"
  shows "calculate_risk_score files sens =
     min 100 (10 + (if len files > 1000 then 20 else if len files > 100 then 15
                    else if len files > 10 then 10 else 5)
              + py_int (py_fmul (py_truediv (len sens) (len files)) 50)
              + 5 * len (filter (\<lambda>f. any_in high_risk_patterns (lower f)) sens))"
proof -
  have zero: "py_int (py_fmul (py_truediv (len ([] :: string list)) (len files)) 50) = 0"
    by (simp add: len_def py_truediv_def py_fmul_def py_int_def round_double_def)
  show ?thesis
    using assms zero
    by (cases "sens = []") (simp_all add: calculate_risk_score_def Let_def bonus_foldl min.commute)
qed

lemma detect_foldl_replicate_first:
  assumes "in_category ''credentials'' t"
  shows "foldl (\<lambda>sensitive file. detect_in_categories SENSITIVE_PATTERNS file sensitive) S
           (replicate k t) = S @ replicate k t"
  using assms
  by (induction k arbitrary: S) (simp_all add: detect_step replicate_app_Cons_same)

lemma detect_foldl_replicate_plain:
  assumes "\<not> is_sensitive a"
  shows "foldl (\<lambda>sensitive file. detect_in_categories SENSITIVE_PATTERNS file sensitive) S
           (replicate k a) = S"
proof -
  have "\<not> in_category ''credentials'' a"
    using assms by (auto simp: in_category_def is_sensitive_iff SENSITIVE_PATTERNS_def)
  with assms show ?thesis
    by (induction k arbitrary: S) (simp_all add: detect_step)
qed

lemma high_risk_iff:
  "any_in high_risk_patterns s \<longleftrightarrow>
     (\<exists>p \<in> {''password'', ''secret'', ''.env'', ''credential'',
              ''private'', ''.key'', ''.pem'', ''id_rsa''}. sublist p s)"
  by (simp add: any_in_iff high_risk_patterns_def)

lemma risk_score_of_analyze:
  "ca_risk_score (analyze b files) =
     calculate_risk_score files (ca_sensitive_files (analyze b files))"
  by (simp add: analyze_def Let_def calculate_risk_score_def)

lemma detect_sensitive_files_length: "len (detect_sensitive_files files) \<le> len files"
  using list_emb_length [OF detect_sensitive_files_subseq [of files]] by (simp add: len_def)

text \<open>
  Claim C1, as the code has it. For the empty file list the result is all-zero: risk score
  0, no sensitive files, no file types, no findings. For a non-empty list the risk score
  is the sum, capped at 100, of the base 10, the size tier (20 above 1000 files, 15 above
  100, 10 above 10, else 5), the ratio term and 5 for each sensitive file whose lower-cased
  name contains one of password, secret, .env, credential, private, .key, .pem, id\_rsa.
  The ratio term is \<open>int((s / n) * 50)\<close> in float arithmetic, \<open>s\<close> the number of sensitive
  files and \<open>n\<close> the number of files: the quotient is rounded to a double, the product with
  50 is rounded to a double, and the result is truncated. For a list of at most \<open>2^46\<close>
  files the ratio term is the floor of \<open>50 * s / n\<close> or one less.
\<close>

theorem analyze_risk_score_formula:
  "analyze b [] =
     \<lparr> ca_bucket_name = b, ca_total_files = 0, ca_sensitive_files = [],
       ca_file_types = [], ca_risk_score = 0, ca_findings = [] \<rparr> \<and>
   (files \<noteq> [] \<longrightarrow>
      ca_risk_score (analyze b files) =
        min 100
          (10 + (if len files > 1000 then 20 else if len files > 100 then 15
                 else if len files > 10 then 10 else 5)
           + py_int (py_fmul
               (py_truediv (len (ca_sensitive_files (analyze b files))) (len files)) 50)
           + 5 * len (filter
               (\<lambda>f. \<exists>p \<in> {''password'', ''secret'', ''.env'', ''credential'',
                             ''private'', ''.key'', ''.pem'', ''id_rsa''}. sublist p (lower f))
               (ca_sensitive_files (analyze b files))))) \<and>
   (files \<noteq> [] \<and> len files \<le> 2 ^ 46 \<longrightarrow>
      (50 * len (ca_sensitive_files (analyze b files))) div len files - 1
        \<le> py_int (py_fmul
              (py_truediv (len (ca_sensitive_files (analyze b files))) (len files)) 50) \<and>
      py_int (py_fmul
        (py_truediv (len (ca_sensitive_files (analyze b files))) (len files)) 50)
        \<le> (50 * len (ca_sensitive_files (analyze b files))) div len files)"
proof -
  have empty: "analyze b [] =
     \<lparr> ca_bucket_name = b, ca_total_files = 0, ca_sensitive_files = [],
       ca_file_types = [], ca_risk_score = 0, ca_findings = [] \<rparr>"
    by (simp add: analyze_def)
  have score: "ca_risk_score (analyze b files) =
        min 100
          (10 + (if len files > 1000 then 20 else if len files > 100 then 15
                 else if len files > 10 then 10 else 5)
           + py_int (py_fmul
               (py_truediv (len (ca_sensitive_files (analyze b files))) (len files)) 50)
           + 5 * len (filter
               (\<lambda>f. \<exists>p \<in> {''password'', ''secret'', ''.env'', ''credential'',
                             ''private'', ''.key'', ''.pem'', ''id_rsa''}. sublist p (lower f))
               (ca_sensitive_files (analyze b files))))"
    if "files \<noteq> []"
    unfolding risk_score_of_analyze calculate_risk_score_formula [OF that] high_risk_iff ..
  have ratio: "(50 * len (ca_sensitive_files (analyze b files))) div len files - 1
        \<le> py_int (py_fmul
              (py_truediv (len (ca_sensitive_files (analyze b files))) (len files)) 50) \<and>
      py_int (py_fmul
        (py_truediv (len (ca_sensitive_files (analyze b files))) (len files)) 50)
        \<le> (50 * len (ca_sensitive_files (analyze b files))) div len files"
    if "files \<noteq> []" "len files \<le> 2 ^ 46"
  proof (cases "detect_sensitive_files files = []")
    case True
    then show ?thesis
      by (simp add: analyze_sensitive_files len_def py_truediv_def py_fmul_def py_int_def
            round_double_def)
  next
    case False
    then have "0 < len (detect_sensitive_files files)"
      by (simp add: len_def)
    from ratio_term_enclosure [OF this detect_sensitive_files_length that(2)]
    show ?thesis
      by (simp only: analyze_sensitive_files)
  qed
  from empty score ratio show ?thesis by blast
qed

theorem analyze_risk_score_formula_witness:
  "[''config.json'', ''.env'', ''passwords.txt'', ''id_rsa'', ''normal_file.txt'', ''backup.sql'']
     \<noteq> [] \<and>
   len [''config.json'', ''.env'', ''passwords.txt'', ''id_rsa'', ''normal_file.txt'',
        ''backup.sql''] \<le> 2 ^ 46 \<and>
   ca_risk_score (analyze ''test-bucket''
     [''config.json'', ''.env'', ''passwords.txt'', ''id_rsa'', ''normal_file.txt'',
      ''backup.sql'']) = 71 \<and>
   py_int (py_fmul (py_truediv 5 6) 50) \<le> (50 * 5) div 6"
proof -
  let ?files = "[''config.json'', ''.env'', ''passwords.txt'', ''id_rsa'', ''normal_file.txt'',
                 ''backup.sql'']"
  have h: "?files \<noteq> []"
    by simp
  have h': "len ?files \<le> 2 ^ 46"
    by (simp add: len_def)
  have sens: "ca_sensitive_files (analyze ''test-bucket'' ?files) =
                [''config.json'', ''.env'', ''passwords.txt'', ''id_rsa'', ''backup.sql'']"
    by code_simp
  have ratio: "py_int (py_fmul (py_truediv 5 6) 50) = 41"
    by code_simp
  have bonus: "filter
      (\<lambda>f. \<exists>p \<in> {''password'', ''secret'', ''.env'', ''credential'',
                    ''private'', ''.key'', ''.pem'', ''id_rsa''}. sublist p (lower f))
      [''config.json'', ''.env'', ''passwords.txt'', ''id_rsa'', ''backup.sql'']
      = [''.env'', ''passwords.txt'', ''id_rsa'']"
    by code_simp
  from analyze_risk_score_formula [of "''test-bucket''" ?files] h h'
  have score: "ca_risk_score (analyze ''test-bucket'' ?files) =
        min 100
          (10 + (if len ?files > 1000 then 20 else if len ?files > 100 then 15
                 else if len ?files > 10 then 10 else 5)
           + py_int (py_fmul
               (py_truediv (len (ca_sensitive_files (analyze ''test-bucket'' ?files)))
                  (len ?files)) 50)
           + 5 * len (filter
               (\<lambda>f. \<exists>p \<in> {''password'', ''secret'', ''.env'', ''credential'',
                             ''private'', ''.key'', ''.pem'', ''id_rsa''}. sublist p (lower f))
               (ca_sensitive_files (analyze ''test-bucket'' ?files))))"
    and below: "py_int (py_fmul
        (py_truediv (len (ca_sensitive_files (analyze ''test-bucket'' ?files))) (len ?files)) 50)
        \<le> (50 * len (ca_sensitive_files (analyze ''test-bucket'' ?files))) div len ?files"
    by blast+
  from score have "ca_risk_score (analyze ''test-bucket'' ?files) = 71"
    unfolding sens bonus by (simp add: len_def ratio)
  moreover from below have "py_int (py_fmul (py_truediv 5 6) 50) \<le> (50 * 5) div 6"
    unfolding sens by (simp add: len_def)
  ultimately show ?thesis
    using h h' by blast
qed

text \<open>
  Claim C1 as stated takes the ratio term to be the floor of \<open>50 * (s / n)\<close>. For 50 files of
  which 29 are sensitive and none is high-risk, that sum is 10 + 10 + 29 = 49; the float
  product \<open>(29 / 50) * 50\<close> is just below 29 and the score is 48.
\<close>

theorem analyze_risk_score_float_counterexample:
  "ca_sensitive_files (analyze ''b'' (replicate 29 ''token'' @ replicate 21 ''a'')) =
     replicate 29 ''token'' \<and>
   \<not> any_in high_risk_patterns (lower ''token'') \<and>
   ca_risk_score (analyze ''b'' (replicate 29 ''token'' @ replicate 21 ''a'')) = 48 \<and>
   min 100 (10 + 10 + \<lfloor>(50::rat) * (29 / 50)\<rfloor> + 5 * 0) = (49::int)"
proof -
  let ?files = "replicate 29 ''token'' @ replicate 21 ''a''"
  have token: "in_category ''credentials'' ''token''"
    by code_simp
  have plain: "\<not> is_sensitive ''a''"
    by code_simp
  have low: "\<not> any_in high_risk_patterns (lower ''token'')"
    by code_simp
  have ne: "?files \<noteq> []"
    by simp
  have sens: "ca_sensitive_files (analyze ''b'' ?files) = replicate 29 ''token''"
    unfolding analyze_sensitive_files detect_sensitive_files_def foldl_append
      detect_foldl_replicate_first [OF token] detect_foldl_replicate_plain [OF plain]
    by simp
  have ratio: "py_int (py_fmul (py_truediv 29 50) 50) = 28"
    by code_simp
  have "ca_risk_score (analyze ''b'' ?files) = 48"
    unfolding risk_score_of_analyze sens calculate_risk_score_formula [OF ne]
    using low by (simp add: len_def ratio)
  moreover have "min 100 (10 + 10 + \<lfloor>(50::rat) * (29 / 50)\<rfloor> + 5 * 0) = (49::int)"
    by simp
  ultimately show ?thesis
    using sens low by blast
qed

text \<open>
  Claim C5. The risk score of \<open>analyze\<close> lies between 0 and 100 for every file list. With
  the number of files fixed, replacing a file that matches no pattern by a file that
  matches one never lowers the number of sensitive files and never lowers the risk score.
\<close>

theorem risk_score_bounded_monotone:
  "0 \<le> ca_risk_score (analyze b files) \<and> ca_risk_score (analyze b files) \<le> 100 \<and>
   (\<not> is_sensitive f \<and> is_sensitive g \<longrightarrow>
      len (ca_sensitive_files (analyze b (xs @ f # ys)))
        \<le> len (ca_sensitive_files (analyze b (xs @ g # ys))) \<and>
      ca_risk_score (analyze b (xs @ f # ys)) \<le> ca_risk_score (analyze b (xs @ g # ys)))"
proof -
  let ?hr = "\<lambda>f. any_in high_risk_patterns (lower f)"
  have bounded: "0 \<le> ca_risk_score (analyze b files) \<and> ca_risk_score (analyze b files) \<le> 100"
  proof (cases "files = []")
    case True
    then show ?thesis by (simp add: analyze_def)
  next
    case False
    then have "0 < len files" by (simp add: len_def)
    then have "0 \<le> py_int (py_fmul
        (py_truediv (len (ca_sensitive_files (analyze b files))) (len files)) 50)"
      by (intro ratio_term_nonneg) (simp_all add: len_def)
    moreover have "0 \<le> len (filter ?hr (ca_sensitive_files (analyze b files)))"
      by (simp add: len_def)
    ultimately show ?thesis
      unfolding risk_score_of_analyze calculate_risk_score_formula [OF False] by simp
  qed
  have mono: "len (ca_sensitive_files (analyze b (xs @ f # ys)))
        \<le> len (ca_sensitive_files (analyze b (xs @ g # ys))) \<and>
      ca_risk_score (analyze b (xs @ f # ys)) \<le> ca_risk_score (analyze b (xs @ g # ys))"
    if fg: "\<not> is_sensitive f" "is_sensitive g"
  proof -
    let ?S = "detect_sensitive_files (xs @ f # ys)"
    let ?T = "detect_sensitive_files (xs @ g # ys)"
    have sub: "mset ?S \<subseteq># mset ?T"
      using fg by (rule detect_replace)
    then have "size (mset ?S) \<le> size (mset ?T)"
      by (rule size_mset_mono)
    then have count: "len ?S \<le> len ?T"
      by (simp add: len_def)
    have "filter_mset ?hr (mset ?S) \<subseteq># filter_mset ?hr (mset ?T)"
      using sub by (rule multiset_filter_mono)
    then have "size (mset (filter ?hr ?S)) \<le> size (mset (filter ?hr ?T))"
      unfolding mset_filter by (rule size_mset_mono)
    then have bonus: "len (filter ?hr ?S) \<le> len (filter ?hr ?T)"
      unfolding size_mset by (simp add: len_def)
    have n: "len (xs @ f # ys) = len (xs @ g # ys)" "0 < len (xs @ g # ys)"
      by (simp_all add: len_def)
    have ratio: "py_int (py_fmul (py_truediv (len ?S) (len (xs @ g # ys))) 50)
                 \<le> py_int (py_fmul (py_truediv (len ?T) (len (xs @ g # ys))) 50)"
      using count n(2) by (intro ratio_term_mono) (simp_all add: len_def)
    have "calculate_risk_score (xs @ f # ys) ?S \<le> calculate_risk_score (xs @ g # ys) ?T"
      unfolding calculate_risk_score_formula [of "xs @ f # ys", simplified]
        calculate_risk_score_formula [of "xs @ g # ys", simplified] n(1)
      using ratio bonus by (intro min.mono) simp_all
    with count show ?thesis
      by (simp add: risk_score_of_analyze analyze_sensitive_files)
  qed
  from bounded mono show ?thesis by blast
qed

theorem risk_score_bounded_monotone_witness:
  "\<not> is_sensitive ''a'' \<and> is_sensitive ''token'' \<and>
   ca_risk_score (analyze ''b'' ([''x.log''] @ ''a'' # [''readme'']))
     \<le> ca_risk_score (analyze ''b'' ([''x.log''] @ ''token'' # [''readme''])) \<and>
   ca_risk_score (analyze ''b'' ([''x.log''] @ ''token'' # [''readme''])) \<le> 100"
proof -
  have h1: "\<not> is_sensitive ''a''"
    by code_simp
  have h2: "is_sensitive ''token''"
    by code_simp
  show ?thesis
    using h1 h2
      risk_score_bounded_monotone [of "''b''" "[''x.log''] @ ''token'' # [''readme'']"
        "''a''" "''token''" "[''x.log'']" "[''readme'']"]
    by blast
qed

end
